theory Spec2Isabelle
  imports Complex_Main "HOL-Library.Multiset"
begin

section \<open>Python values: errors, indexing, slicing\<close>

text \<open>
  The program is Python. An uncaught \<^verbatim>\<open>IndexError\<close> is a value of the model: every
  function that can raise returns \<open>py_error + 'a\<close>, with \<open>Inl\<close> for the exception.
  Python integers are unbounded, so they are \<open>int\<close>. A list index may be negative and then
  counts from the end; a slice bound may be negative as well and never raises.
  Python's \<^verbatim>\<open>is\<close> compares object identity. CPython keeps one object for each integer
  from -5 to 256, so there \<^verbatim>\<open>is\<close> agrees with equality; the two operands of the
  editor's tests are a stored index and the fresh result of \<^verbatim>\<open>len\<close>, which are distinct
  objects for every other value, so there \<^verbatim>\<open>is\<close> is false.
\<close>

datatype py_error = IndexError

definition py_index :: "'a list \<Rightarrow> int \<Rightarrow> py_error + 'a" where
  "py_index xs i =
     (let n = int (length xs)
      in if 0 \<le> i \<and> i < n then Inr (xs ! nat i)
         else if - n \<le> i \<and> i < 0 then Inr (xs ! nat (n + i))
         else Inl IndexError)"

definition py_is :: "int \<Rightarrow> int \<Rightarrow> bool" where
  \<comment> \<open>\<^verbatim>\<open>a is b\<close> for an integer variable \<open>a\<close> and \<open>b = len(...)\<close>\<close>
  "py_is a b \<longleftrightarrow> a = b \<and> - 5 \<le> a \<and> a \<le> 256"

definition py_pos :: "'a list \<Rightarrow> int \<Rightarrow> nat" where
  \<comment> \<open>the position that a valid Python index denotes\<close>
  "py_pos xs i = (if 0 \<le> i then nat i else nat (int (length xs) + i))"

definition py_take :: "'a list \<Rightarrow> int \<Rightarrow> 'a list" where
  \<comment> \<open>\<^verbatim>\<open>xs[:i]\<close>\<close>
  "py_take xs i = (if 0 \<le> i then take (nat i) xs else take (nat (int (length xs) + i)) xs)"

definition py_drop :: "'a list \<Rightarrow> int \<Rightarrow> 'a list" where
  \<comment> \<open>\<^verbatim>\<open>xs[i:]\<close>\<close>
  "py_drop xs i = (if 0 \<le> i then drop (nat i) xs else drop (nat (int (length xs) + i)) xs)"

section \<open>Nodes and the tree\<close>

text \<open>
  \<^verbatim>\<open>class Node\<close>: text, children, creation time, id and parent id. The parent object
  reference of the source is represented by \<open>parent_id\<close>, the id of that object (\<open>None\<close> for
  the root); the tree structure itself says whose child a node is. The creation time is
  the reading of \<^verbatim>\<open>time.time()\<close>, which the environment supplies. The fields \<^verbatim>\<open>text\<close>
  and \<^verbatim>\<open>id\<close> are \<open>node_text\<close> and \<open>node_id\<close> here, the names of the export's columns.
\<close>

datatype node = Node (node_text: string) (children: "node list") (creation_time: real)
  (node_id: int) (parent_id: "int option")

text \<open>
  \<^verbatim>\<open>class Tree\<close>: the root and the current stream (the path). The class variable
  \<^verbatim>\<open>Node.node_id\<close>, the next id to hand out, is global state of the program; the
  model carries it with the tree as \<open>next_node_id\<close>.
\<close>

record tree =
  root :: node
  current_stream :: "int list"
  next_node_id :: int

definition Tree_init :: "real \<Rightarrow> tree" where
  \<comment> \<open>\<^verbatim>\<open>Tree()\<close> in a fresh process: the root is the first node made, with id 0\<close>
  "Tree_init now = \<lparr>root = Node [] [] now 0 None, current_stream = [], next_node_id = 1\<rparr>"

text \<open>
  \<^verbatim>\<open>node_at_index\<close>: \<^verbatim>\<open>for i in range(index): node = node.children[self.current_stream[i]]\<close>.
  \<open>follow\<close> takes the stream entries in order; running out of entries is the
  \<^verbatim>\<open>IndexError\<close> of \<^verbatim>\<open>self.current_stream[i]\<close>. A negative \<open>index\<close> gives an empty range.
\<close>

fun follow :: "node \<Rightarrow> int list \<Rightarrow> nat \<Rightarrow> py_error + node" where
  "follow n p 0 = Inr n"
| "follow n [] (Suc k) = Inl IndexError"
| "follow n (s # p) (Suc k) =
     (case py_index (children n) s of Inl e \<Rightarrow> Inl e | Inr c \<Rightarrow> follow c p k)"

definition node_at_index :: "tree \<Rightarrow> int \<Rightarrow> py_error + node" where
  "node_at_index t index = follow (root t) (current_stream t) (nat index)"

text \<open>
  \<^verbatim>\<open>selected_node.add_child(new_node)\<close> mutates the node that \<^verbatim>\<open>node_at_index\<close> returned.
  In the model the tree is rebuilt along the same walk.
\<close>

definition set_children :: "node \<Rightarrow> node list \<Rightarrow> node" where
  "set_children n cs = Node (node_text n) cs (creation_time n) (node_id n) (parent_id n)"

fun add_child_at :: "node \<Rightarrow> int list \<Rightarrow> nat \<Rightarrow> node \<Rightarrow> node" where
  "add_child_at n p 0 new = set_children n (children n @ [new])"
| "add_child_at n [] (Suc k) new = n"
| "add_child_at n (s # p) (Suc k) new =
     (let i = py_pos (children n) s
      in set_children n ((children n)[i := add_child_at (children n ! i) p k new]))"

definition grow :: "tree \<Rightarrow> string \<Rightarrow> int \<Rightarrow> real \<Rightarrow> py_error + tree" where
  "grow t text index now =
     (case node_at_index t index of
        Inl e \<Rightarrow> Inl e
      | Inr selected_node \<Rightarrow>
          (let stream = py_take (current_stream t) index @ [int (length (children selected_node))];
               new_node = Node text [] now (next_node_id t) (Some (node_id selected_node))
           in Inr \<lparr>root = add_child_at (root t) (current_stream t) (nat index) new_node,
                   current_stream = stream,
                   next_node_id = next_node_id t + 1\<rparr>))"

text \<open>
  The leaf descent of \<^verbatim>\<open>switch_stream\<close>: the inner \<^verbatim>\<open>while node.children\<close> loop, with
  the stream and the index it updates passed along.
\<close>

function descend :: "node \<Rightarrow> int \<Rightarrow> bool \<Rightarrow> int list \<Rightarrow> int \<Rightarrow> int list \<times> int" where
  "descend n increment leaf_explore stream index =
     (if children n = [] then (stream, index)
      else if increment \<ge> 0
        then descend (hd (children n)) increment leaf_explore (stream @ [0])
               (if leaf_explore then index + 1 else index)
        else descend (last (children n)) increment leaf_explore
               (stream @ [int (length (children n)) - 1])
               (if leaf_explore then index + 1 else index))"
  by pat_completeness auto
termination
proof (relation "measure (\<lambda>(n, increment, leaf_explore, stream, index). size n)")
  show "wf (measure (\<lambda>(n, increment, leaf_explore, stream, index). size n))"
    by simp
next
  fix n :: node and increment :: int and leaf_explore :: bool and stream :: "int list" and index :: int
  assume "children n \<noteq> []"
  then have "hd (children n) \<in> set (children n)"
    by simp
  then have "size (hd (children n)) \<le> size_list size (children n)"
    by (rule size_list_estimation') simp
  then have "size (hd (children n)) < size n"
    by (cases n) simp
  then show "((hd (children n), increment, leaf_explore, stream @ [0],
                if leaf_explore then index + 1 else index),
              n, increment, leaf_explore, stream, index)
             \<in> measure (\<lambda>(n, increment, leaf_explore, stream, index). size n)"
    by simp
next
  fix n :: node and increment :: int and leaf_explore :: bool and stream :: "int list" and index :: int
  assume "children n \<noteq> []"
  then have "last (children n) \<in> set (children n)"
    by simp
  then have "size (last (children n)) \<le> size_list size (children n)"
    by (rule size_list_estimation') simp
  then have "size (last (children n)) < size n"
    by (cases n) simp
  then show "((last (children n), increment, leaf_explore, stream @ [int (length (children n)) - 1],
                if leaf_explore then index + 1 else index),
              n, increment, leaf_explore, stream, index)
             \<in> measure (\<lambda>(n, increment, leaf_explore, stream, index). size n)"
    by simp
qed

text \<open>
  \<^verbatim>\<open>switch_stream\<close>: the outer \<^verbatim>\<open>while index > 1\<close> loop. It returns from inside the loop
  with the current \<open>index\<close> when a sibling is in range, and with \<open>original_index\<close> after the
  loop. The method mutates the stream and returns the index; the model returns both.
\<close>

function switch_loop :: "tree \<Rightarrow> int \<Rightarrow> int \<Rightarrow> int \<Rightarrow> bool \<Rightarrow> py_error + tree \<times> int" where
  "switch_loop t original_index index increment leaf_explore =
     (if index > 1 then
        (case node_at_index t (index - 1) of
           Inl e \<Rightarrow> Inl e
         | Inr parent \<Rightarrow>
             (case py_index (current_stream t) (index - 1) of
                Inl e \<Rightarrow> Inl e
              | Inr s \<Rightarrow>
                  (let new_stream_at_index = s + increment
                   in if new_stream_at_index \<ge> 0 \<and> new_stream_at_index < int (length (children parent))
                      then (case descend (children parent ! nat new_stream_at_index) increment leaf_explore
                                   (py_take (current_stream t) (index - 1) @ [new_stream_at_index]) index of
                              (stream, index') \<Rightarrow> Inr (t\<lparr>current_stream := stream\<rparr>, index'))
                      else switch_loop t original_index (index - 1) increment leaf_explore)))
      else Inr (t, original_index))"
  by pat_completeness auto
termination
  by (relation "measure (\<lambda>(t, original_index, index, increment, leaf_explore). nat index)") auto

definition switch_stream :: "tree \<Rightarrow> int \<Rightarrow> int \<Rightarrow> bool \<Rightarrow> py_error + tree \<times> int" where
  "switch_stream t index increment leaf_explore =
     switch_loop t index index increment
       (if py_is index (int (length (current_stream t))) then True else leaf_explore)"

text \<open>\<^verbatim>\<open>get_stream\<close>: one item per step of the stream, appended in order.\<close>

record stream_item =
  item_text :: string
  num_before :: int
  num_after :: int

fun get_stream_from :: "node \<Rightarrow> int list \<Rightarrow> stream_item list \<Rightarrow> py_error + stream_item list" where
  "get_stream_from n [] stream = Inr stream"
| "get_stream_from n (step # steps) stream =
     (case py_index (children n) step of
        Inl e \<Rightarrow> Inl e
      | Inr c \<Rightarrow> get_stream_from c steps
                  (stream @ [\<lparr>item_text = node_text c, num_before = step,
                              num_after = int (length (children n)) - step - 1\<rparr>]))"

definition get_stream :: "tree \<Rightarrow> py_error + stream_item list" where
  "get_stream t = get_stream_from (root t) (current_stream t) []"

text \<open>
  \<^verbatim>\<open>collect_node_data\<close> appends the record of the node to \<open>data\<close> and then visits the
  children in order with the same list. \<^verbatim>\<open>export_tree_to_csv\<close> starts it at the root with
  parent text \<^verbatim>\<open>''\<close> and depth 0; the model returns the rows that are given to the CSV
  writer (the header line and the file are the writer's).
\<close>

record csv_row =
  row_node_text :: string
  row_parent_text :: string
  row_creation_time :: real
  row_depth :: int
  row_node_id :: int
  row_parent_id :: "int option"

fun collect_node_data :: "node \<Rightarrow> string \<Rightarrow> csv_row list \<Rightarrow> int \<Rightarrow> csv_row list" where
  "collect_node_data (Node tx cs ct i p) parent_text data depth =
     fold (\<lambda>child d. collect_node_data child tx d (depth + 1)) cs
       (data @ [\<lparr>row_node_text = tx, row_parent_text = parent_text, row_creation_time = ct,
                 row_depth = depth, row_node_id = i, row_parent_id = p\<rparr>])"

definition export_tree_to_csv :: "tree \<Rightarrow> csv_row list" where
  "export_tree_to_csv t = collect_node_data (root t) [] [] 0"

section \<open>Wrapping text\<close>

text \<open>
  \<^verbatim>\<open>text_wrap(text, line_length)\<close> of \<^verbatim>\<open>utils.py\<close>. \<open>split_space\<close> is \<^verbatim>\<open>text.split(' ')\<close>:
  every single space separates, so the result is never empty. \<open>split_long\<close> is the inner
  \<^verbatim>\<open>while len(word) > line_length\<close> loop; for \<open>line_length = 0\<close> that loop of the source
  does not end on a nonempty word, and the condition \<open>0 < line_length\<close> keeps the model
  total there (the editor calls it with its column width, 35, only). \<open>wrap_words\<close> is the
  \<^verbatim>\<open>for word in words\<close> loop, ending with the final \<^verbatim>\<open>lines.append(line)\<close>.
\<close>

fun split_from :: "string \<Rightarrow> string \<Rightarrow> string list" where
  \<comment> \<open>the word read so far, and the rest of the text\<close>
  "split_from w [] = [w]"
| "split_from w (c # cs) =
     (if c = CHR '' '' then w # split_from [] cs else split_from (w @ [c]) cs)"

definition split_space :: "string \<Rightarrow> string list" where
  "split_space text = split_from [] text"

function split_long :: "nat \<Rightarrow> string \<Rightarrow> string list \<Rightarrow> string \<Rightarrow> string list \<times> string \<times> string" where
  "split_long line_length word lines line =
     (if length word > line_length \<and> 0 < line_length
      then split_long line_length (drop line_length word)
             ((if line \<noteq> [] then lines @ [line] else lines) @ [take line_length word]) []
      else (lines, line, word))"
  by pat_completeness auto
termination
  by (relation "measure (\<lambda>(line_length, word, lines, line). length word)") auto

fun wrap_words :: "nat \<Rightarrow> string list \<Rightarrow> string list \<Rightarrow> string \<Rightarrow> string list" where
  "wrap_words line_length [] lines line = lines @ [line]"
| "wrap_words line_length (word # words) lines line =
     (case split_long line_length word lines line of
        (lines1, line1, word1) \<Rightarrow>
          if length line1 + length word1 + 1 > line_length
          then wrap_words line_length words (lines1 @ [line1]) word1
          else wrap_words line_length words lines1
                 (line1 @ (if line1 \<noteq> [] then CHR '' '' # word1 else word1)))"

definition text_wrap :: "string \<Rightarrow> nat \<Rightarrow> string list" where
  "text_wrap text line_length = wrap_words line_length (split_space text) [] []"

section \<open>The editor\<close>

text \<open>
  The configuration: \<^verbatim>\<open>initial_timer\<close> is 20 with \<^verbatim>\<open>--autoloop\<close> (the default) and 100
  without. Every editor function that reads it takes the flag as its first argument.
\<close>

definition initial_timer :: "bool \<Rightarrow> int" where
  "initial_timer autoloop = (if autoloop then 20 else 100)"

text \<open>
  \<^verbatim>\<open>class Editor\<close>, without the fields that only the display uses (terminal, colours, gap
  width, the last display, the shuttle switch).
\<close>

record editor =
  tree :: tree
  reading_mode :: bool
  selected_index :: int
  line_in_para :: int
  current_text :: string
  cursor_position :: int
  column_width :: nat
  current_timer :: int
  shuttle :: "string list"

definition Editor_init :: "bool \<Rightarrow> real \<Rightarrow> editor" where
  "Editor_init autoloop now =
     \<lparr>tree = Tree_init now, reading_mode = False, selected_index = 0, line_in_para = 0,
      current_text = [], cursor_position = 0, column_width = 35,
      current_timer = initial_timer autoloop, shuttle = []\<rparr>"

text \<open>
  The start of the program, after \<^verbatim>\<open>editor = Editor(term)\<close>: when a saved file exists, the
  unpickled tree replaces the editor's tree and the current stream is set to the leftmost
  lineage (\<^verbatim>\<open>while node.children: ... node = node.children[0]\<close>). The nodes come back
  with the ids they were saved with. \<^verbatim>\<open>Node.node_id\<close> is a class variable and not
  part of the file: the counter keeps the value it has after the editor's own root was
  made. \<^verbatim>\<open>selected_index\<close> stays 0.
\<close>

fun leftmost_from :: "node \<Rightarrow> int list \<Rightarrow> int list" where
  "leftmost_from (Node tx cs ct i p) stream =
     (case cs of [] \<Rightarrow> stream | c # rest \<Rightarrow> leftmost_from c (stream @ [0]))"

definition load_tree :: "editor \<Rightarrow> node \<Rightarrow> editor" where
  "load_tree e saved_root =
     e\<lparr>tree := \<lparr>root = saved_root, current_stream = leftmost_from saved_root [],
                 next_node_id = next_node_id (tree e)\<rparr>\<rparr>"

definition lines_in_current_para :: "editor \<Rightarrow> py_error + int" where
  "lines_in_current_para e =
     (case get_stream (tree e) of
        Inl x \<Rightarrow> Inl x
      | Inr stream \<Rightarrow>
          (case py_index stream (selected_index e - 1) of
             Inl x \<Rightarrow> Inl x
           | Inr item \<Rightarrow> Inr (1 + int (length (text_wrap (item_text item) (column_width e))))))"

definition set_reading_mode :: "bool \<Rightarrow> editor \<Rightarrow> py_error + editor" where
  "set_reading_mode autoloop e =
     (let e1 = e\<lparr>reading_mode := True, line_in_para := 0, current_text := [],
                 cursor_position := 0, selected_index := selected_index e + 1\<rparr>
      in if selected_index e1 > int (length (current_stream (tree e1)))
         then (case switch_stream (tree e1) (selected_index e1 - 1) 1 True of
                 Inl x \<Rightarrow> Inl x
               | Inr (t', i) \<Rightarrow>
                   Inr (e1\<lparr>tree := t', selected_index := 1, current_timer := initial_timer autoloop\<rparr>))
         else Inr (e1\<lparr>current_timer := initial_timer autoloop\<rparr>))"

definition prev_line :: "editor \<Rightarrow> py_error + editor" where
  "prev_line e =
     (if reading_mode e
      then (let e1 = e\<lparr>line_in_para := line_in_para e - 1\<rparr>
            in if line_in_para e1 = - 1
               then (if selected_index e1 = 1 then Inr (e1\<lparr>line_in_para := 0\<rparr>)
                     else (let e2 = e1\<lparr>selected_index := selected_index e1 - 1\<rparr>
                           in case lines_in_current_para e2 of
                                Inl x \<Rightarrow> Inl x
                              | Inr n \<Rightarrow> Inr (e2\<lparr>line_in_para := n - 1\<rparr>)))
               else Inr e1)
      else (let e1 = e\<lparr>reading_mode := True\<rparr>
            in case lines_in_current_para e1 of
                 Inl x \<Rightarrow> Inl x
               | Inr n \<Rightarrow> Inr (e1\<lparr>line_in_para := n - 1\<rparr>)))"

definition next_para :: "editor \<Rightarrow> bool \<Rightarrow> editor" where
  "next_para e keep_in_reading_mode =
     (let e1 = e\<lparr>line_in_para := 0\<rparr>
      in if py_is (selected_index e1) (int (length (current_stream (tree e1))))
         then (if keep_in_reading_mode then e1 else e1\<lparr>reading_mode := False\<rparr>)
         else e1\<lparr>selected_index := selected_index e1 + 1\<rparr>)"

definition next_line :: "bool \<Rightarrow> editor \<Rightarrow> py_error + editor" where
  "next_line autoloop e =
     (if reading_mode e
      then (let e1 = e\<lparr>line_in_para := line_in_para e + 1\<rparr>
            in case lines_in_current_para e1 of
                 Inl x \<Rightarrow> Inl x
               | Inr n \<Rightarrow> if line_in_para e1 \<ge> n then Inr (next_para e1 False) else Inr e1)
      else (let e1 = e\<lparr>current_timer := current_timer e - 1\<rparr>
            in if current_timer e1 = 0 then set_reading_mode autoloop e1 else Inr e1))"

definition prev_para :: "editor \<Rightarrow> editor" where
  "prev_para e =
     (let e1 = e\<lparr>line_in_para := 0\<rparr>
      in if selected_index e1 > 1 then e1\<lparr>selected_index := selected_index e1 - 1\<rparr> else e1)"

definition submit_para :: "bool \<Rightarrow> real \<Rightarrow> editor \<Rightarrow> py_error + editor" where
  "submit_para autoloop now e =
     (case grow (tree e) (current_text e) (selected_index e) now of
        Inl x \<Rightarrow> Inl x
      | Inr t' \<Rightarrow>
          Inr (e\<lparr>tree := t', selected_index := selected_index e + 1, current_text := [],
                 cursor_position := 0, current_timer := initial_timer autoloop\<rparr>))"

text \<open>
  A key event of the terminal library: a named sequence key (\<^verbatim>\<open>key.is_sequence\<close>, with
  \<^verbatim>\<open>key.name\<close>), or a plain string, which is empty when the read timed out (the timer
  event). \<open>KEY_OTHER\<close> stands for every name the editor does not look at.
\<close>

datatype key_name = KEY_ENTER | KEY_TAB | KEY_BACKSPACE | KEY_RIGHT | KEY_LEFT | KEY_DOWN
  | KEY_UP | KEY_ESCAPE | KEY_OTHER

datatype key = Sequence key_name | Plain string

fun repeat_prev_line :: "nat \<Rightarrow> editor \<Rightarrow> py_error + editor" where
  \<comment> \<open>\<^verbatim>\<open>for _ in range(n): self.prev_line()\<close>\<close>
  "repeat_prev_line 0 e = Inr e"
| "repeat_prev_line (Suc n) e =
     (case prev_line e of Inl x \<Rightarrow> Inl x | Inr e1 \<Rightarrow> repeat_prev_line n e1)"

definition switch_selected :: "editor \<Rightarrow> int \<Rightarrow> py_error + editor" where
  \<comment> \<open>\<^verbatim>\<open>self.selected_index = self.tree.switch_stream(self.selected_index, increment)\<close>\<close>
  "switch_selected e increment =
     (case switch_stream (tree e) (selected_index e) increment False of
        Inl x \<Rightarrow> Inl x
      | Inr (t', i) \<Rightarrow> Inr (e\<lparr>tree := t', selected_index := i\<rparr>))"

definition reading_key :: "editor \<Rightarrow> string \<Rightarrow> py_error + editor" where
  \<comment> \<open>the \<^verbatim>\<open>if self.reading_mode:\<close> block of a plain key\<close>
  "reading_key e k =
     (if k = ''j'' \<or> k = ''n'' then Inr (next_para e True)
      else if k = ''k'' \<or> k = ''e'' then Inr (prev_para e)
      else if k = ''h'' \<or> k = ''m'' then switch_selected e (- 1)
      else if k = ''l'' \<or> k = ''i'' then switch_selected e 1
      else if k = ''p''
        then (case get_stream (tree e) of
                Inl x \<Rightarrow> Inl x
              | Inr stream \<Rightarrow>
                  (case py_index stream (selected_index e - 1) of
                     Inl x \<Rightarrow> Inl x
                   | Inr item \<Rightarrow> Inr (e\<lparr>shuttle := shuttle e @ [item_text item]\<rparr>)))
      else Inr e)"

definition handle_keypress :: "bool \<Rightarrow> real \<Rightarrow> editor \<Rightarrow> key \<Rightarrow> py_error + editor" where
  "handle_keypress autoloop now e key =
     (case key of
        Sequence name \<Rightarrow>
          if name = KEY_ENTER then
            (if reading_mode e then Inr (e\<lparr>reading_mode := False\<rparr>)
             else if current_text e \<noteq> [] then submit_para autoloop now e
             else if selected_index e < int (length (current_stream (tree e)))
               then set_reading_mode autoloop e
             else Inr e)
          else if name = KEY_TAB then
            (if reading_mode e then Inr (next_para e False)
             else if current_stream (tree e) \<noteq> [] then set_reading_mode autoloop e
             else Inr e)
          else if name = KEY_BACKSPACE \<and> current_text e \<noteq> [] \<and> \<not> reading_mode e then
            Inr (e\<lparr>current_text := py_take (current_text e) (cursor_position e - 1)
                                      @ py_drop (current_text e) (cursor_position e),
                   cursor_position := max 0 (cursor_position e - 1)\<rparr>)
          else if name = KEY_RIGHT then
            (if reading_mode e then switch_selected e 1
             else Inr (e\<lparr>cursor_position :=
                           min (int (length (current_text e))) (cursor_position e + 1)\<rparr>))
          else if name = KEY_LEFT then
            (if reading_mode e then switch_selected e (- 1)
             else Inr (e\<lparr>cursor_position := max 0 (cursor_position e - 1)\<rparr>))
          else if name = KEY_DOWN then next_line autoloop e
          else if name = KEY_UP then prev_line e
          else if name = KEY_ESCAPE then
            (if \<not> reading_mode e
             then (case (if current_text e \<noteq> [] then submit_para autoloop now e else Inr e) of
                     Inl x \<Rightarrow> Inl x
                   | Inr e1 \<Rightarrow>
                       repeat_prev_line
                         (1 + length (text_wrap (current_text e1) (column_width e1))) e1)
             else Inr e)
          else Inr e
      | Plain k \<Rightarrow>
          if k \<noteq> [] then
            (case (if reading_mode e then reading_key e k else Inr e) of
               Inl x \<Rightarrow> Inl x
             | Inr e1 \<Rightarrow>
                 if \<not> reading_mode e1
                 then Inr (e1\<lparr>current_text := py_take (current_text e1) (cursor_position e1) @ k
                                              @ py_drop (current_text e1) (cursor_position e1),
                             cursor_position := cursor_position e1 + 1\<rparr>)
                 else Inr e1)
          else next_line autoloop e)"

text \<open>
  The main loop dispatches one event after the other; an event comes with the reading of
  the clock at that moment. An exception ends the run (only the keyboard interrupt is
  caught by the loop).
\<close>

fun run :: "bool \<Rightarrow> editor \<Rightarrow> (key \<times> real) list \<Rightarrow> py_error + editor" where
  "run autoloop e [] = Inr e"
| "run autoloop e ((key, now) # events) =
     (case handle_keypress autoloop now e key of
        Inl x \<Rightarrow> Inl x
      | Inr e1 \<Rightarrow> run autoloop e1 events)"

section \<open>Notions used in the properties\<close>

text \<open>The nodes of a subtree in pre-order, their number, and what a node records.\<close>

fun nodes_of :: "node \<Rightarrow> node list" where
  "nodes_of (Node tx cs ct i p) = Node tx cs ct i p # concat (map nodes_of cs)"

fun count_nodes :: "node \<Rightarrow> nat" where
  "count_nodes (Node tx cs ct i p) = 1 + sum_list (map count_nodes cs)"

definition node_info :: "node \<Rightarrow> string \<times> int option \<times> real \<times> int" where
  "node_info n = (node_text n, parent_id n, creation_time n, node_id n)"

text \<open>
  The rows of a pre-order traversal, written without the accumulator: the row of the node,
  then the rows of each child's subtree from left to right.
\<close>

fun preorder_rows :: "node \<Rightarrow> string \<Rightarrow> int \<Rightarrow> csv_row list" where
  "preorder_rows (Node tx cs ct i p) parent_text depth =
     \<lparr>row_node_text = tx, row_parent_text = parent_text, row_creation_time = ct,
      row_depth = depth, row_node_id = i, row_parent_id = p\<rparr>
     # concat (map (\<lambda>child. preorder_rows child tx (depth + 1)) cs)"

text \<open>
  The path invariant: following the whole current stream from the root stays inside the
  child lists (in Python's sense of a valid index).
\<close>

definition valid_path :: "tree \<Rightarrow> bool" where
  "valid_path t =
     (case node_at_index t (int (length (current_stream t))) of Inl e \<Rightarrow> False | Inr n \<Rightarrow> True)"

text \<open>
  A level has a valid sibling in a direction when the stream entry of that level plus the
  increment lies within the child list of the level's parent. Level \<open>j\<close> is the stream
  entry at position \<open>j - 1\<close>; its parent is the node at depth \<open>j - 1\<close>.
\<close>

definition has_sibling :: "tree \<Rightarrow> int \<Rightarrow> int \<Rightarrow> bool" where
  "has_sibling t level increment =
     (case node_at_index t (level - 1) of
        Inl e \<Rightarrow> False
      | Inr parent \<Rightarrow>
          (case py_index (current_stream t) (level - 1) of
             Inl e \<Rightarrow> False
           | Inr s \<Rightarrow> 0 \<le> s + increment \<and> s + increment < int (length (children parent))))"

text \<open>The entries that the leaf descent appends below a node.\<close>

definition leaf_path :: "node \<Rightarrow> int \<Rightarrow> int list" where
  "leaf_path n increment = fst (descend n increment False [] 0)"

text \<open>
  Calling \<^verbatim>\<open>switch_stream\<close> again and again with the same arguments: one call, and \<open>n\<close>
  more on the tree that the call before has left.
\<close>

fun switch_again :: "nat \<Rightarrow> tree \<Rightarrow> int \<Rightarrow> int \<Rightarrow> bool \<Rightarrow> py_error + tree \<times> int" where
  "switch_again 0 t depth increment leaf_explore = switch_stream t depth increment leaf_explore"
| "switch_again (Suc n) t depth increment leaf_explore =
     (case switch_stream t depth increment leaf_explore of
        Inl e \<Rightarrow> Inl e
      | Inr (t', d) \<Rightarrow> switch_again n t' depth increment leaf_explore)"

text \<open>The cursor lies within the text being written.\<close>

definition cursor_in_bounds :: "editor \<Rightarrow> bool" where
  "cursor_in_bounds e \<longleftrightarrow> 0 \<le> cursor_position e \<and> cursor_position e \<le> int (length (current_text e))"

text \<open>
  Every node of the tree was made by the constructor, which hands out the value of the
  counter and then increments it: the ids in the tree lie below the counter.
\<close>

definition ids_below_counter :: "tree \<Rightarrow> bool" where
  "ids_below_counter t \<longleftrightarrow> (\<forall>n\<in>set (nodes_of (root t)). node_id n < next_node_id t)"

text \<open>
  A list of child indices is the extremal descent below a node when it follows the first
  child (increment \<open>\<ge> 0\<close>) or the last child (otherwise) at every step and ends at a node
  without children.
\<close>

fun extremal_descent :: "node \<Rightarrow> int \<Rightarrow> int list \<Rightarrow> bool" where
  "extremal_descent n increment [] \<longleftrightarrow> children n = []"
| "extremal_descent n increment (s # ext) \<longleftrightarrow>
     children n \<noteq> []
     \<and> s = (if increment \<ge> 0 then 0 else int (length (children n)) - 1)
     \<and> extremal_descent (children n ! nat s) increment ext"

section \<open>Example states\<close>

definition hello_tree :: tree where
  "hello_tree = \<lparr>root = Node [] [Node ''hello'' [] 1 1 (Some 0)] 0 0 None,
                  current_stream = [0], next_node_id = 2\<rparr>"

definition backspace_state :: editor where
  "backspace_state = (Editor_init True 0)\<lparr>current_text := ''abc'', cursor_position := 0\<rparr>"

definition escape_state :: editor where
  "escape_state =
     (Editor_init True 0)\<lparr>current_text := ''aaaaaaaaaaaaaaaaaaaaaaaaaaaaaaaaaaaa'',
                           cursor_position := 36\<rparr>"

definition escape_submitted :: editor where
  \<comment> \<open>\<open>escape_state\<close> after \<open>submit_para\<close> at clock reading 1\<close>
  "escape_submitted =
     \<lparr>tree = \<lparr>root = Node [] [Node ''aaaaaaaaaaaaaaaaaaaaaaaaaaaaaaaaaaaa'' [] 1 1 (Some 0)] 0 0 None,
              current_stream = [0], next_node_id = 2\<rparr>,
      reading_mode = False, selected_index = 1, line_in_para = 0, current_text = [],
      cursor_position = 0, column_width = 35, current_timer = 20, shuttle = []\<rparr>"

definition lineage_tree :: tree where
  "lineage_tree =
     \<lparr>root = Node [] [Node ''A'' [Node ''B'' [Node ''C'' [] 3 3 (Some 2)] 2 2 (Some 1)] 1 1 (Some 0)] 0 0 None,
      current_stream = [0, 0, 0], next_node_id = 4\<rparr>"

definition climb_tree :: tree where
  "climb_tree =
     \<lparr>root = Node [] [Node ''A'' [Node ''B'' [Node ''D'' [Node ''F'' [] 4 4 (Some 3)] 3 3 (Some 2)] 2 2 (Some 1),
                                   Node ''C'' [] 5 5 (Some 1)] 1 1 (Some 0)] 0 0 None,
      current_stream = [0, 0, 0, 0], next_node_id = 6\<rparr>"

definition root_fork_tree :: tree where
  "root_fork_tree =
     \<lparr>root = Node [] [Node ''A'' [Node ''B'' [] 2 2 (Some 1)] 1 1 (Some 0),
                      Node ''C'' [] 3 3 (Some 0)] 0 0 None,
      current_stream = [0, 0], next_node_id = 4\<rparr>"

definition cursor_events :: "(key \<times> real) list" where
  "cursor_events =
     [(Plain ''a'', 1), (Plain ''b'', 2), (Sequence KEY_LEFT, 3), (Sequence KEY_LEFT, 4),
      (Sequence KEY_LEFT, 5), (Sequence KEY_BACKSPACE, 6), (Sequence KEY_RIGHT, 7),
      (Plain ''c'', 8), (Sequence KEY_ENTER, 9), (Plain ''d'', 10), (Sequence KEY_UP, 11),
      (Sequence KEY_ENTER, 12), (Sequence KEY_BACKSPACE, 13)]"

definition cursor_final :: editor where
  "cursor_final =
     \<lparr>tree = \<lparr>root = Node [] [Node ''acab'' [] 9 1 (Some 0)] 0 0 None,
              current_stream = [0], next_node_id = 2\<rparr>,
      reading_mode = False, selected_index = 1, line_in_para = 1, current_text = [],
      cursor_position = 0, column_width = 35, current_timer = 20, shuttle = []\<rparr>"

definition deep_fork_tree :: tree where
  "deep_fork_tree =
     \<lparr>root = Node [] [Node ''A'' [Node ''B'' [Node ''D'' [] 3 3 (Some 2)] 2 2 (Some 1),
                                   Node ''C'' [Node ''E'' [Node ''G'' [] 6 6 (Some 5),
                                                           Node ''H'' [] 7 7 (Some 5)] 5 5 (Some 4)] 4 4 (Some 1)]
                         1 1 (Some 0)] 0 0 None,
      current_stream = [0, 0, 0], next_node_id = 8\<rparr>"

definition left_tree :: tree where
  "left_tree =
     \<lparr>root = Node [] [Node ''A'' [Node ''B'' [Node ''D'' [] 3 3 (Some 2),
                                            Node ''E'' [] 4 4 (Some 2)] 2 2 (Some 1),
                                   Node ''C'' [Node ''F'' [] 6 6 (Some 5)] 5 5 (Some 1)] 1 1 (Some 0)] 0 0 None,
      current_stream = [0, 1, 0], next_node_id = 7\<rparr>"

text \<open>
  A tree saved by an earlier run (root, A below it, B below A, with the ids 0, 1, 2), and
  the editor that has loaded it at start.
\<close>

definition saved_root :: node where
  "saved_root = Node [] [Node ''A'' [Node ''B'' [] 2 2 (Some 1)] 1 1 (Some 0)] 0 0 None"

definition loaded_editor :: editor where
  "loaded_editor = load_tree (Editor_init True 10) saved_root"

text \<open>
  The state of a fresh editor after 20 timer events, Tab and Enter: writing mode, the timer
  at its initial value, the selected index 2 on the empty path.
\<close>

definition stuck_state :: editor where
  "stuck_state =
     \<lparr>tree = Tree_init 0, reading_mode = False, selected_index = 2, line_in_para = 0,
      current_text = [], cursor_position = 0, column_width = 35, current_timer = 20,
      shuttle = []\<rparr>"

section \<open>The tabular export\<close>

lemma fold_collect_node_data:
  assumes "\<And>c data. c \<in> set cs \<Longrightarrow> collect_node_data c tx data d = data @ preorder_rows c tx d"
  shows "fold (\<lambda>child acc. collect_node_data child tx acc d) cs data
         = data @ concat (map (\<lambda>child. preorder_rows child tx d) cs)"
  using assms by (induction cs arbitrary: data) simp_all

lemma collect_node_data_preorder:
  "collect_node_data n parent_text data depth = data @ preorder_rows n parent_text depth"
proof (induction n arbitrary: parent_text data depth)
  case (Node tx cs ct i p)
  have "fold (\<lambda>child acc. collect_node_data child tx acc (depth + 1)) cs (data @ [r])
        = (data @ [r]) @ concat (map (\<lambda>child. preorder_rows child tx (depth + 1)) cs)" for r
    by (rule fold_collect_node_data) (rule Node.IH)
  then show ?case by simp
qed

lemma length_preorder_rows: "length (preorder_rows n parent_text depth) = count_nodes n"
proof (induction n arbitrary: parent_text depth)
  case (Node tx cs ct i p)
  have "(\<Sum>x\<leftarrow>cs. length (preorder_rows x tx (depth + 1))) = sum_list (map count_nodes cs)"
    using Node.IH by (intro arg_cong[where f = sum_list] map_cong) auto
  then show ?case by (simp add: length_concat comp_def)
qed

text \<open>
  C5, as amended. The export visits the tree in pre-order from the root and emits exactly
  one row per node, the root included: the root's row comes first, with depth 0, parent
  text \<^verbatim>\<open>''\<close> and no parent id. After \<^verbatim>\<open>grow("hello", 0)\<close> on a fresh tree the export has two
  rows, the root's and then the one of "hello", whose parent text is \<^verbatim>\<open>''\<close> and whose depth
  is 1.
\<close>

theorem export_rows_preorder_with_root:
  "export_tree_to_csv t = preorder_rows (root t) [] 0
   \<and> length (export_tree_to_csv t) = count_nodes (root t)
   \<and> map_sum id export_tree_to_csv (grow (Tree_init now0) ''hello'' 0 now)
       = Inr [\<lparr>row_node_text = [], row_parent_text = [], row_creation_time = now0,
               row_depth = 0, row_node_id = 0, row_parent_id = None\<rparr>,
              \<lparr>row_node_text = ''hello'', row_parent_text = [], row_creation_time = now,
               row_depth = 1, row_node_id = 1, row_parent_id = Some 0\<rparr>]"
  by (simp add: export_tree_to_csv_def collect_node_data_preorder length_preorder_rows
       grow_def Tree_init_def node_at_index_def py_take_def set_children_def)

text \<open>
  C5 as stated fails: the export of the tree made by \<^verbatim>\<open>grow("hello", 0)\<close> has two rows, not
  one, and its first row is the root's.
\<close>

theorem export_includes_root_counterexample:
  "grow (Tree_init 0) ''hello'' 0 1 = Inr hello_tree
   \<and> length (export_tree_to_csv hello_tree) = 2
   \<and> row_depth (hd (export_tree_to_csv hello_tree)) = 0
   \<and> row_node_id (hd (export_tree_to_csv hello_tree)) = node_id (root hello_tree)"
  by (simp add: grow_def Tree_init_def hello_tree_def node_at_index_def py_take_def
       export_tree_to_csv_def set_children_def)

section \<open>Key and timer events at concrete states\<close>

text \<open>
  C1 at a failing input. In the initial state the Up key raises \<^verbatim>\<open>IndexError\<close>:
  \<^verbatim>\<open>prev_line\<close> in writing mode reads \<^verbatim>\<open>get_stream()[selected_index - 1]\<close> on the empty
  stream. The Escape key does the same, and so does the 21st timer event of an idle
  editor (the 20th enters reading mode on the empty stream).
\<close>

theorem dispatch_raises_in_initial_state:
  "handle_keypress True 1 (Editor_init True 0) (Sequence KEY_UP) = Inl IndexError
   \<and> handle_keypress True 1 (Editor_init True 0) (Sequence KEY_ESCAPE) = Inl IndexError
   \<and> run True (Editor_init True 0) (replicate 21 (Plain [], 1)) = Inl IndexError"
  by code_simp

text \<open>
  C8 at a failing input. The pending text has 36 letters and wraps into two lines, so the
  claim asks for three calls of \<^verbatim>\<open>prev_line\<close>. The count is computed from \<^verbatim>\<open>current_text\<close>
  after \<^verbatim>\<open>submit_para\<close> has emptied it: \<^verbatim>\<open>prev_line\<close> is called twice, and the selection
  ends on line 1 of the fragment, not on line 0.
\<close>

theorem escape_unwinds_two_lines_only:
  "length (text_wrap (current_text escape_state) (column_width escape_state)) = 2
   \<and> submit_para True 1 escape_state = Inr escape_submitted
   \<and> handle_keypress True 1 escape_state (Sequence KEY_ESCAPE) = repeat_prev_line 2 escape_submitted
   \<and> map_sum id line_in_para (handle_keypress True 1 escape_state (Sequence KEY_ESCAPE)) = Inr 1
   \<and> map_sum id line_in_para (repeat_prev_line 3 escape_submitted) = Inr 0"
  by code_simp

text \<open>
  C9 at a failing input. With the text "abc" and the cursor at 0 (typed, then Left three
  times), Backspace evaluates \<^verbatim>\<open>current_text[:-1] + current_text[0:]\<close>: the text becomes
  "ababc" instead of staying "abc".
\<close>

theorem backspace_at_cursor_zero_duplicates_text:
  "run True (Editor_init True 0)
     [(Plain ''a'', 1), (Plain ''b'', 2), (Plain ''c'', 3),
      (Sequence KEY_LEFT, 4), (Sequence KEY_LEFT, 5), (Sequence KEY_LEFT, 6)] = Inr backspace_state
   \<and> handle_keypress True 7 backspace_state (Sequence KEY_BACKSPACE)
       = Inr (backspace_state\<lparr>current_text := ''ababc''\<rparr>)"
  by code_simp

section \<open>Growing the tree\<close>

lemma py_index_pos:
  "py_index xs s = Inr c \<Longrightarrow> py_pos xs s < length xs \<and> c = xs ! py_pos xs s"
  by (auto simp: py_index_def py_pos_def Let_def split: if_splits)

lemma py_index_list_update:
  "py_index xs s = Inr c \<Longrightarrow> py_index (xs[i := y]) s = Inr ((xs[i := y]) ! py_pos xs s)"
  by (auto simp: py_index_def py_pos_def Let_def split: if_splits)

lemma nodes_of_set_children:
  "nodes_of (set_children n cs) = set_children n cs # concat (map nodes_of cs)"
  by (simp add: set_children_def)

lemma nodes_of_children:
  "nodes_of n = n # concat (map nodes_of (children n))"
  by (cases n) simp

lemma node_info_set_children [simp]: "node_info (set_children n cs) = node_info n"
  by (simp add: node_info_def set_children_def)

lemma children_set_children [simp]: "children (set_children n cs) = cs"
  by (simp add: set_children_def)

lemma length_nodes_of: "length (nodes_of n) = count_nodes n"
proof (induction n)
  case (Node tx cs ct i p)
  have "(\<Sum>x\<leftarrow>cs. length (nodes_of x)) = sum_list (map count_nodes cs)"
    using Node.IH by (intro arg_cong[where f = sum_list] map_cong) auto
  then show ?case by (simp add: length_concat comp_def)
qed

lemma infos_list_update:
  assumes "i < length cs"
  shows "mset (map node_info (concat (map nodes_of (cs[i := c']))))
         + mset (map node_info (nodes_of (cs ! i)))
         = mset (map node_info (concat (map nodes_of cs))) + mset (map node_info (nodes_of c'))"
proof -
  have a: "cs[i := c'] = take i cs @ c' # drop (Suc i) cs"
    using assms by (rule upd_conv_take_nth_drop)
  have b: "cs = take i cs @ cs ! i # drop (Suc i) cs"
    using assms by (rule id_take_nth_drop)
  have "mset (map node_info (concat (map nodes_of (take i cs @ c' # drop (Suc i) cs))))
         + mset (map node_info (nodes_of (cs ! i)))
         = mset (map node_info (concat (map nodes_of (take i cs @ cs ! i # drop (Suc i) cs))))
           + mset (map node_info (nodes_of c'))"
    by simp
  then show ?thesis
    using a b by simp
qed

lemma add_child_at_infos:
  "follow r p k = Inr sel \<Longrightarrow>
   mset (map node_info (nodes_of (add_child_at r p k new)))
   = mset (map node_info (nodes_of r)) + mset (map node_info (nodes_of new))"
proof (induction r p k arbitrary: sel rule: follow.induct)
  case (1 n p)
  show ?case
    by (simp add: nodes_of_set_children) (simp add: nodes_of_children [of n])
next
  case (2 n k)
  then show ?case by simp
next
  case (3 n s p k)
  from "3.prems" obtain c where c: "py_index (children n) s = Inr c" and f: "follow c p k = Inr sel"
    by (auto split: sum.splits)
  define i where "i = py_pos (children n) s"
  have i: "i < length (children n)" and ci: "c = children n ! i"
    using py_index_pos [OF c] by (simp_all add: i_def)
  have ih: "mset (map node_info (nodes_of (add_child_at c p k new)))
            = mset (map node_info (nodes_of c)) + mset (map node_info (nodes_of new))"
    using "3.IH" [OF c f] .
  have "mset (map node_info (nodes_of (add_child_at n (s # p) (Suc k) new)))
          + mset (map node_info (nodes_of c))
        = add_mset (node_info n)
            (mset (map node_info (concat (map nodes_of ((children n)[i := add_child_at c p k new]))))
             + mset (map node_info (nodes_of (children n ! i))))"
    by (simp add: nodes_of_set_children i_def [symmetric] ci [symmetric] Let_def)
  also have "\<dots> = add_mset (node_info n)
            (mset (map node_info (concat (map nodes_of (children n))))
             + mset (map node_info (nodes_of (add_child_at c p k new))))"
    by (simp only: infos_list_update [OF i])
  also have "\<dots> = mset (map node_info (nodes_of n)) + mset (map node_info (nodes_of new))
                   + mset (map node_info (nodes_of c))"
    using ih by (simp add: nodes_of_children [of n])
  finally show ?case
    by simp
qed

lemma add_child_at_follow:
  "follow r p k = Inr sel \<Longrightarrow>
   follow (add_child_at r p k new) (take k p @ [int (length (children sel))]) (Suc k) = Inr new"
proof (induction r p k arbitrary: sel rule: follow.induct)
  case (1 n p)
  then show ?case
    by (simp add: py_index_def)
next
  case (2 n k)
  then show ?case by simp
next
  case (3 n s p k)
  from "3.prems" obtain c where c: "py_index (children n) s = Inr c" and f: "follow c p k = Inr sel"
    by (auto split: sum.splits)
  define i where "i = py_pos (children n) s"
  have i: "i < length (children n)" and ci: "c = children n ! i"
    using py_index_pos [OF c] by (simp_all add: i_def)
  have "py_index ((children n)[i := add_child_at c p k new]) s = Inr (add_child_at c p k new)"
    using py_index_list_update [OF c, of i] i by (simp add: i_def)
  then show ?case
    using "3.IH" [OF c f] by (simp add: Let_def i_def [symmetric] ci [symmetric])
qed

lemma py_index_nat:
  "0 \<le> i \<Longrightarrow> nat i < length xs \<Longrightarrow> py_index xs i = Inr (xs ! nat i)"
  by (auto simp: py_index_def Let_def)

lemma py_index_nonneg:
  "py_index xs s = Inr c \<Longrightarrow> 0 \<le> s \<Longrightarrow> nat s < length xs \<and> c = xs ! nat s"
  by (auto simp: py_index_def Let_def split: if_splits)

lemma add_child_at_keeps:
  "follow r p k = Inr sel \<Longrightarrow> \<forall>s\<in>set q. 0 \<le> s \<Longrightarrow> follow r q m = Inr n \<Longrightarrow>
   \<exists>n'. follow (add_child_at r p k new) q m = Inr n' \<and> node_info n' = node_info n"
proof (induction r p k arbitrary: sel q m n rule: follow.induct)
  case (1 r p)
  show ?case
  proof (cases m)
    case 0
    with "1.prems" show ?thesis by simp
  next
    case (Suc m')
    with "1.prems"(3) obtain s' q' where q: "q = s' # q'"
      by (cases q) auto
    from "1.prems"(3) Suc q obtain c' where c': "py_index (children r) s' = Inr c'"
      and f: "follow c' q' m' = Inr n"
      by (auto split: sum.splits)
    have "0 \<le> s'" using "1.prems"(2) q by simp
    from py_index_nonneg [OF c' this]
    have "py_index (children r @ [new]) s' = Inr c'"
      using \<open>0 \<le> s'\<close> by (auto simp: py_index_def nth_append Let_def)
    then show ?thesis
      using f Suc q by simp
  qed
next
  case (2 r k)
  then show ?case by simp
next
  case (3 r s p k)
  from "3.prems"(1) obtain c where c: "py_index (children r) s = Inr c" and fc: "follow c p k = Inr sel"
    by (auto split: sum.splits)
  define i where "i = py_pos (children r) s"
  have i: "i < length (children r)" and ci: "c = children r ! i"
    using py_index_pos [OF c] by (simp_all add: i_def)
  define cs' where "cs' = (children r)[i := add_child_at c p k new]"
  have upd: "add_child_at r (s # p) (Suc k) new = set_children r cs'"
    by (simp add: Let_def i_def [symmetric] ci [symmetric] cs'_def)
  show ?case
  proof (cases m)
    case 0
    with "3.prems"(3) show ?thesis by (simp add: Let_def)
  next
    case (Suc m')
    with "3.prems"(3) obtain s' q' where q: "q = s' # q'"
      by (cases q) auto
    from "3.prems"(3) Suc q obtain c' where c': "py_index (children r) s' = Inr c'"
      and f: "follow c' q' m' = Inr n"
      by (auto split: sum.splits)
    have nonneg: "0 \<le> s'" and rest: "\<forall>s\<in>set q'. 0 \<le> s"
      using "3.prems"(2) q by simp_all
    have s': "nat s' < length (children r)" and c'_eq: "c' = children r ! nat s'"
      using py_index_nonneg [OF c' nonneg] by simp_all
    have idx: "py_index cs' s' = Inr (cs' ! nat s')"
      using s' nonneg by (intro py_index_nat) (simp_all add: cs'_def)
    show ?thesis
    proof (cases "nat s' = i")
      case True
      then have "cs' ! nat s' = add_child_at c p k new" and "c' = c"
        using i c'_eq ci by (simp_all add: cs'_def)
      then show ?thesis
        using "3.IH" [OF c fc rest, of m' n] f idx Suc q upd by simp
    next
      case False
      then have "cs' ! nat s' = c'"
        using c'_eq by (simp add: cs'_def)
      then show ?thesis
        using f idx Suc q upd by simp
    qed
  qed
qed

text \<open>
  What \<^verbatim>\<open>grow\<close> does at a depth from 0 to the path length, on a tree whose path resolves
  down to that depth and whose ids lie below the counter: one node more, the records of
  the old nodes kept, every old node at its place, the ids again below the counter, and the
  path cut to the depth, extended by the new child's index and resolving to the new node.
\<close>

lemma grow_adds_one_node:
  assumes "0 \<le> atDepth" and "atDepth \<le> int (length (current_stream t))"
    and "node_at_index t atDepth = Inr selected"
    and "ids_below_counter t"
  shows "\<exists>t'. grow t text atDepth now = Inr t'
    \<and> count_nodes (root t') = count_nodes (root t) + 1
    \<and> mset (map node_info (nodes_of (root t')))
        = add_mset (text, Some (node_id selected), now, next_node_id t)
            (mset (map node_info (nodes_of (root t))))
    \<and> ids_below_counter t'
    \<and> (\<forall>q m n. (\<forall>s\<in>set q. 0 \<le> s) \<and> follow (root t) q m = Inr n
          \<longrightarrow> (\<exists>n'. follow (root t') q m = Inr n' \<and> node_info n' = node_info n))
    \<and> current_stream t' = take (nat atDepth) (current_stream t) @ [int (length (children selected))]
    \<and> int (length (current_stream t')) = atDepth + 1
    \<and> node_at_index t' (atDepth + 1) = Inr (Node text [] now (next_node_id t) (Some (node_id selected)))"
proof -
  define new where "new = Node text [] now (next_node_id t) (Some (node_id selected))"
  define t' where "t' = \<lparr>root = add_child_at (root t) (current_stream t) (nat atDepth) new,
                         current_stream = take (nat atDepth) (current_stream t) @ [int (length (children selected))],
                         next_node_id = next_node_id t + 1\<rparr>"
  have f: "follow (root t) (current_stream t) (nat atDepth) = Inr selected"
    using assms(3) by (simp add: node_at_index_def)
  have g: "grow t text atDepth now = Inr t'"
    using assms(1,3) by (simp add: grow_def t'_def new_def py_take_def)
  have infos: "mset (map node_info (nodes_of (root t')))
               = add_mset (text, Some (node_id selected), now, next_node_id t)
                   (mset (map node_info (nodes_of (root t))))"
    using add_child_at_infos [OF f, of new] by (simp add: t'_def) (simp add: new_def node_info_def)
  have "size (mset (map node_info (nodes_of (root t'))))
        = Suc (size (mset (map node_info (nodes_of (root t)))))"
    by (simp only: infos size_add_mset)
  then have cnt: "count_nodes (root t') = count_nodes (root t) + 1"
    by (simp add: length_nodes_of)
  have old_ids: "\<forall>n\<in>set (nodes_of (root t)). node_id n < next_node_id t"
    using assms(4) by (simp add: ids_below_counter_def)
  have "node_id n < next_node_id t'" if "n \<in> set (nodes_of (root t'))" for n
  proof -
    from that have "node_info n \<in># mset (map node_info (nodes_of (root t')))"
      by simp
    then have "node_info n = (text, Some (node_id selected), now, next_node_id t)
               \<or> node_info n \<in> node_info ` set (nodes_of (root t))"
      unfolding infos by auto
    then show ?thesis
      using old_ids by (auto simp: node_info_def t'_def)
  qed
  then have ids': "ids_below_counter t'"
    by (simp add: ids_below_counter_def)
  have keeps: "\<forall>q m n. (\<forall>s\<in>set q. 0 \<le> s) \<and> follow (root t) q m = Inr n
          \<longrightarrow> (\<exists>n'. follow (root t') q m = Inr n' \<and> node_info n' = node_info n)"
    using add_child_at_keeps [OF f, of _ _ _ new] by (simp add: t'_def)
  have len: "int (length (current_stream t')) = atDepth + 1"
    using assms(1,2) by (simp add: t'_def)
  have "nat (atDepth + 1) = Suc (nat atDepth)"
    using assms(1) by simp
  then have at: "node_at_index t' (atDepth + 1) = Inr new"
    using add_child_at_follow [OF f, of new] by (simp add: node_at_index_def t'_def)
  show ?thesis
    using g cnt infos ids' keeps len at by (simp add: t'_def new_def)
qed

text \<open>
  C4 at failing inputs. A loaded tree has ids up to 2 while the counter stands at 1. Typing
  "x" and Enter calls \<^verbatim>\<open>grow("x", 0)\<close>, and the new node gets the id 1, which A has
  already and which is below the id of B. After Up three times and Enter the selected
  index is -1, and \<^verbatim>\<open>grow("x", -1)\<close> cuts the path \<open>[0, 0]\<close> to \<open>[0]\<close> and appends the
  root's child count: the path \<open>[0, 1]\<close> has length 2, not 0, and does not resolve.
\<close>

theorem grow_after_load_reuses_an_id:
  "tree loaded_editor = \<lparr>root = saved_root, current_stream = [0, 0], next_node_id = 1\<rparr>
   \<and> map node_id (nodes_of (root (tree loaded_editor))) = [0, 1, 2]
   \<and> map_sum id (\<lambda>t. map node_id (nodes_of (root t))) (grow (tree loaded_editor) ''x'' 0 12)
       = Inr [0, 1, 2, 1]
   \<and> map_sum id (\<lambda>e. map node_id (nodes_of (root (tree e))))
         (run True loaded_editor [(Plain ''x'', 11), (Sequence KEY_ENTER, 12)])
       = Inr [0, 1, 2, 1]
   \<and> map_sum id selected_index
         (run True loaded_editor
            [(Sequence KEY_UP, 11), (Sequence KEY_UP, 12), (Sequence KEY_UP, 13),
             (Sequence KEY_ENTER, 14)])
       = Inr (- 1)
   \<and> map_sum id (\<lambda>t. (current_stream t, valid_path t)) (grow (tree loaded_editor) ''x'' (- 1) 16)
       = Inr ([0, 1], False)
   \<and> map_sum id (\<lambda>e. (current_stream (tree e), valid_path (tree e)))
         (run True loaded_editor
            [(Sequence KEY_UP, 11), (Sequence KEY_UP, 12), (Sequence KEY_UP, 13),
             (Sequence KEY_ENTER, 14), (Plain ''x'', 15), (Sequence KEY_ENTER, 16)])
       = Inr ([0, 1], False)"
  by code_simp


section \<open>Switching streams\<close>

declare descend.simps [simp del] switch_loop.simps [simp del]

lemma follow_prefix:
  "follow n p k = Inr m \<Longrightarrow> j \<le> k \<Longrightarrow> \<exists>m'. follow n p j = Inr m'"
proof (induction n p k arbitrary: j rule: follow.induct)
  case (1 n p)
  then show ?case by simp
next
  case (2 n k)
  then show ?case by simp
next
  case (3 n s p k)
  show ?case
  proof (cases j)
    case 0
    then show ?thesis by simp
  next
    case (Suc j')
    with 3 show ?thesis by (auto split: sum.splits)
  qed
qed

lemma valid_path_node_at_index:
  assumes "valid_path t" and "index \<le> int (length (current_stream t))"
  shows "\<exists>m. node_at_index t index = Inr m"
proof -
  from assms(1) obtain m where "follow (root t) (current_stream t) (length (current_stream t)) = Inr m"
    by (auto simp: valid_path_def node_at_index_def split: sum.splits)
  moreover have "nat index \<le> length (current_stream t)"
    using assms(2) by simp
  ultimately show ?thesis
    unfolding node_at_index_def by (rule follow_prefix)
qed

lemma py_index_in_range:
  "0 \<le> i \<Longrightarrow> i < int (length xs) \<Longrightarrow> py_index xs i = Inr (xs ! nat i)"
  by (simp add: py_index_def)

lemma descend_leaf:
  "children n = [] \<Longrightarrow> descend n increment leaf_explore stream index = (stream, index)"
  by (subst descend.simps) simp

lemma descend_shift:
  "descend n increment leaf_explore stream index
   = (stream @ leaf_path n increment,
      if leaf_explore then index + int (length (leaf_path n increment)) else index)"
proof (induction n arbitrary: leaf_explore stream index)
  case (Node tx cs ct i p)
  let ?n = "Node tx cs ct i p"
  show ?case
  proof (cases "cs = []")
    case True
    then show ?thesis
      by (simp add: leaf_path_def descend_leaf)
  next
    case False
    define c where "c = (if increment \<ge> 0 then hd cs else last cs)"
    define s where "s = (if increment \<ge> 0 then 0 else int (length cs) - 1)"
    have c_in: "c \<in> set cs"
      using False by (simp add: c_def)
    have step: "descend ?n increment le st ix
                = descend c increment le (st @ [s]) (if le then ix + 1 else ix)" for le st ix
      using False by (subst descend.simps) (simp add: c_def s_def)
    have "leaf_path ?n increment = fst (descend c increment False ([] @ [s]) 0)"
      by (simp add: leaf_path_def step)
    also have "\<dots> = [s] @ leaf_path c increment"
      by (subst Node.IH [OF c_in]) simp
    finally have lp: "leaf_path ?n increment = s # leaf_path c increment"
      by simp
    show ?thesis
      by (subst step, subst Node.IH [OF c_in]) (simp add: lp)
  qed
qed

lemma switch_loop_noop:
  assumes "valid_path t" and "index \<le> int (length (current_stream t))"
    and "\<forall>j \<in> set [2..index]. \<not> has_sibling t j increment"
  shows "switch_loop t original_index index increment leaf_explore = Inr (t, original_index)"
  using assms
proof (induction t original_index index increment leaf_explore rule: switch_loop.induct)
  case (1 t original_index index increment leaf_explore)
  show ?case
  proof (cases "index > 1")
    case False
    then show ?thesis by (subst switch_loop.simps) simp
  next
    case True
    obtain parent where parent: "node_at_index t (index - 1) = Inr parent"
      using valid_path_node_at_index [OF "1.prems"(1), of "index - 1"] "1.prems"(2) by auto
    have s: "py_index (current_stream t) (index - 1) = Inr (current_stream t ! nat (index - 1))"
      using True "1.prems"(2) by (intro py_index_in_range) auto
    have "\<not> has_sibling t index increment"
      using "1.prems"(3) True by simp
    then have out: "\<not> (0 \<le> current_stream t ! nat (index - 1) + increment
                      \<and> current_stream t ! nat (index - 1) + increment < int (length (children parent)))"
      by (simp add: has_sibling_def parent s)
    have rest: "\<forall>j \<in> set [2..index - 1]. \<not> has_sibling t j increment"
      using "1.prems"(3) by simp
    have "switch_loop t original_index (index - 1) increment leaf_explore = Inr (t, original_index)"
      using "1.IH" [OF True parent s refl] out "1.prems"(1,2) rest by auto
    then show ?thesis
      using True out by (subst switch_loop.simps) (auto simp add: parent s Let_def)
  qed
qed

lemma switch_loop_found:
  assumes "valid_path t" and "index \<le> int (length (current_stream t))"
    and "2 \<le> j" and "j \<le> index" and "has_sibling t j increment"
    and "\<forall>k \<in> set [j + 1..index]. \<not> has_sibling t k increment"
    and "node_at_index t (j - 1) = Inr parent"
  shows "switch_loop t original_index index increment leaf_explore
         = (let new = current_stream t ! nat (j - 1) + increment;
                ext = leaf_path (children parent ! nat new) increment
            in Inr (t\<lparr>current_stream := take (nat (j - 1)) (current_stream t) @ [new] @ ext\<rparr>,
                    if leaf_explore then j + int (length ext) else j))"
  using assms
proof (induction t original_index index increment leaf_explore rule: switch_loop.induct)
  case (1 t original_index index increment leaf_explore)
  have gt: "index > 1"
    using "1.prems"(3,4) by simp
  obtain parent' where parent': "node_at_index t (index - 1) = Inr parent'"
    using valid_path_node_at_index [OF "1.prems"(1), of "index - 1"] "1.prems"(2) by auto
  have s: "py_index (current_stream t) (index - 1) = Inr (current_stream t ! nat (index - 1))"
    using gt "1.prems"(2) by (intro py_index_in_range) auto
  show ?case
  proof (cases "j = index")
    case True
    have in_range: "0 \<le> current_stream t ! nat (index - 1) + increment
                    \<and> current_stream t ! nat (index - 1) + increment < int (length (children parent))"
      using "1.prems"(5,7) True by (simp add: has_sibling_def s)
    show ?thesis
      using gt in_range "1.prems"(7) True
      by (subst switch_loop.simps) (simp add: s descend_shift py_take_def Let_def)
  next
    case False
    then have lt: "j \<le> index - 1"
      using "1.prems"(4) by simp
    have "\<not> has_sibling t index increment"
      using "1.prems"(6) False "1.prems"(4) by simp
    then have out: "\<not> (0 \<le> current_stream t ! nat (index - 1) + increment
                      \<and> current_stream t ! nat (index - 1) + increment < int (length (children parent')))"
      by (simp add: has_sibling_def parent' s)
    have rest: "\<forall>k \<in> set [j + 1..index - 1]. \<not> has_sibling t k increment"
      using "1.prems"(6) by simp
    have "switch_loop t original_index (index - 1) increment leaf_explore
         = (let new = current_stream t ! nat (j - 1) + increment;
                ext = leaf_path (children parent ! nat new) increment
            in Inr (t\<lparr>current_stream := take (nat (j - 1)) (current_stream t) @ [new] @ ext\<rparr>,
                    if leaf_explore then j + int (length ext) else j))"
      using "1.IH" [OF gt parent' s refl] out "1.prems"(1,2,3,5,7) lt rest by auto
    then show ?thesis
      using gt out by (subst switch_loop.simps) (auto simp add: parent' s Let_def)
  qed
qed

text \<open>
  C6. On a tree with a valid path and a depth within the path, when no level that the
  search examines (from \<open>depth\<close> down to 2) has a valid sibling in the direction,
  \<^verbatim>\<open>switch_stream\<close> returns without an exception, the tree and its path are exactly as
  before and the depth returned is the depth given; any number of further calls with the
  same arguments gives the same again. A single-child lineage is such a tree, in both
  directions.
\<close>

theorem switch_stream_no_sibling_noop:
  assumes "valid_path t" and "depth \<le> int (length (current_stream t))"
    and "\<forall>j \<in> set [2..depth]. \<not> has_sibling t j increment"
  shows "switch_stream t depth increment leaf_explore = Inr (t, depth)
         \<and> switch_again n t depth increment leaf_explore = Inr (t, depth)"
proof -
  have one: "switch_stream t depth increment leaf_explore = Inr (t, depth)"
    unfolding switch_stream_def using assms by (rule switch_loop_noop)
  have "switch_again n t depth increment leaf_explore = Inr (t, depth)"
    by (induction n) (simp_all add: one)
  with one show ?thesis by simp
qed

theorem switch_stream_no_sibling_noop_witness:
  "valid_path lineage_tree \<and> 3 \<le> int (length (current_stream lineage_tree))
   \<and> \<not> has_sibling lineage_tree 2 1 \<and> \<not> has_sibling lineage_tree 3 1
   \<and> \<not> has_sibling lineage_tree 2 (- 1) \<and> \<not> has_sibling lineage_tree 3 (- 1)
   \<and> switch_stream lineage_tree 3 1 False = Inr (lineage_tree, 3)
   \<and> switch_again 5 lineage_tree 3 (- 1) False = Inr (lineage_tree, 3)"
proof -
  have a: "valid_path lineage_tree" by code_simp
  have b: "3 \<le> int (length (current_stream lineage_tree))" by code_simp
  have c: "\<forall>j \<in> set [2..3]. \<not> has_sibling lineage_tree j 1" by code_simp
  have d: "\<forall>j \<in> set [2..3]. \<not> has_sibling lineage_tree j (- 1)" by code_simp
  show ?thesis
    using switch_stream_no_sibling_noop [OF a b c, of False 0]
      switch_stream_no_sibling_noop [OF a b d, of False 5] a b c d
    by simp
qed

lemma leaf_path_leaf: "children n = [] \<Longrightarrow> leaf_path n increment = []"
  by (simp add: leaf_path_def descend_leaf)

lemma leaf_path_step:
  assumes "children n \<noteq> []"
  shows "leaf_path n increment
         = (if increment \<ge> 0 then 0 # leaf_path (hd (children n)) increment
            else (int (length (children n)) - 1) # leaf_path (last (children n)) increment)"
proof -
  have "descend n increment False [] 0
        = (if increment \<ge> 0 then descend (hd (children n)) increment False [0] 0
           else descend (last (children n)) increment False [int (length (children n)) - 1] 0)"
    using assms by (subst descend.simps) simp
  then show ?thesis
    by (simp add: leaf_path_def descend_shift [of _ _ _ "[_]"])
qed

lemma leaf_path_extremal: "extremal_descent n increment (leaf_path n increment)"
proof (induction n)
  case (Node tx cs ct i p)
  show ?case
  proof (cases "cs = []")
    case True
    then show ?thesis by (simp add: leaf_path_leaf)
  next
    case False
    then have h: "hd cs \<in> set cs" "last cs \<in> set cs"
      by simp_all
    have nth: "cs ! 0 = hd cs" "cs ! nat (int (length cs) - 1) = last cs"
      using False by (simp_all add: hd_conv_nth last_conv_nth nat_diff_distrib')
    show ?thesis
      using False Node.IH [OF h(1)] Node.IH [OF h(2)]
      by (simp add: leaf_path_step nth)
  qed
qed

text \<open>
  C2, as amended. On a tree with a valid path, for \<open>depth\<close> below the path length and
  \<^verbatim>\<open>leaf_explore\<close> false, let level \<open>j\<close> (\<open>2 \<le> j \<le> depth\<close>) have a valid sibling and no
  level between \<open>j + 1\<close> and \<open>depth\<close> have one. When the sibling is found at \<open>depth\<close> itself
  (\<open>j = depth\<close>), \<^verbatim>\<open>switch_stream\<close> returns the depth given. When the search has climbed
  to \<open>j < depth\<close> and the sibling found there is a leaf, the new path ends at that leaf,
  before \<open>depth\<close>, and the depth returned is \<open>j\<close>, the index of the leaf. In both cases the
  nodes are untouched and the new path is the old entries before position \<open>j - 1\<close>, the
  entry of position \<open>j - 1\<close> moved by the increment, and the descent along the first
  children (increment \<open>\<ge> 0\<close>) or the last children (otherwise) down to a leaf. Nothing is
  said of a search that has climbed to a sibling with children.
\<close>

theorem switch_stream_depth_when_found:
  assumes "valid_path t" and "depth < int (length (current_stream t))"
    and "2 \<le> j" and "j \<le> depth" and "has_sibling t j increment"
    and "\<forall>k \<in> set [j + 1..depth]. \<not> has_sibling t k increment"
    and "node_at_index t (j - 1) = Inr parent"
    and "j = depth \<or> children (children parent ! nat (current_stream t ! nat (j - 1) + increment)) = []"
  shows "\<exists>t' ext. switch_stream t depth increment False = Inr (t', j)
          \<and> root t' = root t
          \<and> current_stream t' = take (nat (j - 1)) (current_stream t)
                                  @ [current_stream t ! nat (j - 1) + increment] @ ext
          \<and> extremal_descent (children parent ! nat (current_stream t ! nat (j - 1) + increment))
                increment ext
          \<and> (j < depth \<longrightarrow> int (length (current_stream t')) = j)"
proof -
  define sibling where "sibling = children parent ! nat (current_stream t ! nat (j - 1) + increment)"
  define ext where "ext = leaf_path sibling increment"
  define t' where "t' = t\<lparr>current_stream := take (nat (j - 1)) (current_stream t)
                                  @ [current_stream t ! nat (j - 1) + increment] @ ext\<rparr>"
  have le: "depth \<le> int (length (current_stream t))"
    using assms(2) by simp
  have not_forced: "\<not> py_is depth (int (length (current_stream t)))"
    using assms(2) by (simp add: py_is_def)
  have call: "switch_stream t depth increment False = Inr (t', j)"
    unfolding switch_stream_def
    using switch_loop_found [OF assms(1) le assms(3-7), of depth False] not_forced
    by (simp add: Let_def t'_def ext_def sibling_def)
  have descent: "extremal_descent sibling increment ext"
    unfolding ext_def by (rule leaf_path_extremal)
  have "int (length (current_stream t')) = j" if "j < depth"
  proof -
    from that assms(8) have "children sibling = []"
      by (simp add: sibling_def)
    then have "ext = []"
      by (simp add: ext_def leaf_path_leaf)
    moreover have "nat (j - 1) \<le> length (current_stream t)"
      using assms(2,4) by simp
    ultimately show ?thesis
      using assms(3) by (simp add: t'_def)
  qed
  then show ?thesis
    using call descent by (auto simp: t'_def sibling_def)
qed

theorem switch_stream_depth_when_found_witness:
  "valid_path climb_tree \<and> 3 < int (length (current_stream climb_tree))
   \<and> has_sibling climb_tree 2 1 \<and> \<not> has_sibling climb_tree 3 1
   \<and> node_at_index climb_tree (2 - 1) = Inr (hd (children (root climb_tree)))
   \<and> children (children (hd (children (root climb_tree))) ! nat (current_stream climb_tree ! nat (2 - 1) + 1)) = []
   \<and> (\<exists>t'. switch_stream climb_tree 3 1 False = Inr (t', 2) \<and> current_stream t' = [0, 1])
   \<and> valid_path deep_fork_tree \<and> 2 < int (length (current_stream deep_fork_tree))
   \<and> has_sibling deep_fork_tree 2 1
   \<and> node_at_index deep_fork_tree (2 - 1) = Inr (hd (children (root deep_fork_tree)))
   \<and> (\<exists>t' ext. switch_stream deep_fork_tree 2 1 False = Inr (t', 2)
         \<and> current_stream t' = [0, 1] @ ext
         \<and> extremal_descent (children (hd (children (root deep_fork_tree))) ! 1) 1 ext)
   \<and> switch_stream deep_fork_tree 2 1 False = Inr (deep_fork_tree\<lparr>current_stream := [0, 1, 0, 0]\<rparr>, 2)"
proof -
  have a: "valid_path climb_tree" by code_simp
  have b: "3 < int (length (current_stream climb_tree))" by code_simp
  have c: "has_sibling climb_tree 2 1" by code_simp
  have d: "\<forall>k \<in> set [2 + 1..3]. \<not> has_sibling climb_tree k 1" by code_simp
  have d0: "\<not> has_sibling climb_tree 3 1" by code_simp
  have e: "node_at_index climb_tree (2 - 1) = Inr (hd (children (root climb_tree)))" by code_simp
  have f: "children (children (hd (children (root climb_tree))) ! nat (current_stream climb_tree ! nat (2 - 1) + 1)) = []"
    by code_simp
  have f': "2 = (3::int) \<or> children (children (hd (children (root climb_tree))) ! nat (current_stream climb_tree ! nat (2 - 1) + 1)) = []"
    using f by simp
  have g: "current_stream climb_tree = [0, 0, 0, 0]" by (simp add: climb_tree_def)
  have p1: "\<exists>t'. switch_stream climb_tree 3 1 False = Inr (t', 2) \<and> current_stream t' = [0, 1]"
    using switch_stream_depth_when_found [OF a b _ _ c d e f'] g by auto
  have a': "valid_path deep_fork_tree" by code_simp
  have b': "2 < int (length (current_stream deep_fork_tree))" by code_simp
  have c': "has_sibling deep_fork_tree 2 1" by code_simp
  have d': "\<forall>k \<in> set [2 + 1..2]. \<not> has_sibling deep_fork_tree k 1" by code_simp
  have e': "node_at_index deep_fork_tree (2 - 1) = Inr (hd (children (root deep_fork_tree)))" by code_simp
  have g': "current_stream deep_fork_tree = [0, 0, 0]" by (simp add: deep_fork_tree_def)
  have p2: "\<exists>t' ext. switch_stream deep_fork_tree 2 1 False = Inr (t', 2)
         \<and> current_stream t' = [0, 1] @ ext
         \<and> extremal_descent (children (hd (children (root deep_fork_tree))) ! 1) 1 ext"
    using switch_stream_depth_when_found [OF a' b' _ _ c' d' e', of ] g' by auto
  have q2: "switch_stream deep_fork_tree 2 1 False = Inr (deep_fork_tree\<lparr>current_stream := [0, 1, 0, 0]\<rparr>, 2)"
    by code_simp
  show ?thesis
    using a b c d0 e f p1 a' b' c' e' p2 q2 by simp
qed

text \<open>
  C2 as stated fails: on the path to F in root - A - (B - D - F, C), switching at depth 3
  to the right climbs to level 2 and returns 2, not 3; the new path ends at C.
\<close>

theorem switch_stream_depth_when_found_counterexample:
  "valid_path climb_tree \<and> 1 \<le> (3::int) \<and> 3 < int (length (current_stream climb_tree))
   \<and> switch_stream climb_tree 3 1 False = Inr (climb_tree\<lparr>current_stream := [0, 1]\<rparr>, 2)
   \<and> (2::int) \<noteq> 3"
  by code_simp

text \<open>
  C3, as amended. The upward search examines the levels from \<open>depth\<close> down to 2; level 1,
  whose parent is the root, is never examined. On a tree with a valid path and a depth
  within the path, when no level from 3 to \<open>depth\<close> has a valid sibling: if level 2 has
  one, the new path is the old entry of position 0, the entry of position 1 moved by the
  increment, and the descent from that sibling along the first children (increment
  \<open>\<ge> 0\<close>) or the last children (otherwise) down to a leaf, and with \<^verbatim>\<open>leaf_explore\<close> the
  depth returned is the length of the new path; if level 2 has none, the tree and the path
  are left as they are and the depth given is returned, also when the root has a child at
  index \<open>path[0] + increment\<close>.
\<close>

theorem switch_stream_examines_down_to_level_two:
  assumes "valid_path t" and "depth \<le> int (length (current_stream t))"
    and "\<forall>j \<in> set [3..depth]. \<not> has_sibling t j increment"
  shows "(2 \<le> depth \<and> has_sibling t 2 increment \<longrightarrow>
            (\<exists>t' d parent ext.
               node_at_index t 1 = Inr parent
               \<and> switch_stream t depth increment leaf_explore = Inr (t', d) \<and> root t' = root t
               \<and> current_stream t' = [current_stream t ! 0, current_stream t ! 1 + increment] @ ext
               \<and> extremal_descent (children parent ! nat (current_stream t ! 1 + increment)) increment ext
               \<and> (leaf_explore \<longrightarrow> d = int (length (current_stream t')))))
         \<and> (\<not> has_sibling t 2 increment \<longrightarrow>
              switch_stream t depth increment leaf_explore = Inr (t, depth))"
proof (intro conjI impI)
  assume h: "2 \<le> depth \<and> has_sibling t 2 increment"
  obtain parent where parent: "node_at_index t (2 - 1) = Inr parent"
    using valid_path_node_at_index [OF assms(1), of "2 - 1"] assms(2) h by auto
  define sibling where "sibling = children parent ! nat (current_stream t ! 1 + increment)"
  define ext where "ext = leaf_path sibling increment"
  define le where "le = (if py_is depth (int (length (current_stream t))) then True else leaf_explore)"
  have rest: "\<forall>k \<in> set [2 + 1..depth]. \<not> has_sibling t k increment"
    using assms(3) by simp
  have "2 \<le> length (current_stream t)"
    using assms(2) h by simp
  then have front: "take (Suc 0) (current_stream t) = [current_stream t ! 0]"
    by (cases "current_stream t") auto
  have call: "switch_stream t depth increment leaf_explore
        = Inr (t\<lparr>current_stream := [current_stream t ! 0, current_stream t ! 1 + increment] @ ext\<rparr>,
               if le then 2 + int (length ext) else 2)"
    unfolding switch_stream_def le_def [symmetric]
    using switch_loop_found [OF assms(1,2) order_refl _ _ rest parent, of depth le] h front
    by (simp add: Let_def ext_def sibling_def)
  have descent: "extremal_descent sibling increment ext"
    unfolding ext_def by (rule leaf_path_extremal)
  have "leaf_explore \<Longrightarrow> le"
    by (simp add: le_def)
  then show "\<exists>t' d parent ext.
               node_at_index t 1 = Inr parent
               \<and> switch_stream t depth increment leaf_explore = Inr (t', d) \<and> root t' = root t
               \<and> current_stream t' = [current_stream t ! 0, current_stream t ! 1 + increment] @ ext
               \<and> extremal_descent (children parent ! nat (current_stream t ! 1 + increment)) increment ext
               \<and> (leaf_explore \<longrightarrow> d = int (length (current_stream t')))"
    using parent call descent by (auto simp: sibling_def)
next
  assume "\<not> has_sibling t 2 increment"
  then have "\<forall>j \<in> set [2..depth]. \<not> has_sibling t j increment"
    using assms(3) by (auto simp: upto.simps [of 2 depth])
  then show "switch_stream t depth increment leaf_explore = Inr (t, depth)"
    unfolding switch_stream_def using assms(1,2) by (intro switch_loop_noop)
qed

theorem switch_stream_examines_down_to_level_two_witness:
  "valid_path root_fork_tree \<and> 2 \<le> int (length (current_stream root_fork_tree))
   \<and> \<not> has_sibling root_fork_tree 2 1 \<and> has_sibling root_fork_tree 1 1
   \<and> switch_stream root_fork_tree 2 1 False = Inr (root_fork_tree, 2)
   \<and> valid_path deep_fork_tree \<and> 3 \<le> int (length (current_stream deep_fork_tree))
   \<and> \<not> has_sibling deep_fork_tree 3 1 \<and> has_sibling deep_fork_tree 2 1
   \<and> (\<exists>t' d ext. switch_stream deep_fork_tree 3 1 True = Inr (t', d)
         \<and> current_stream t' = [0, 1] @ ext
         \<and> extremal_descent (children (hd (children (root deep_fork_tree))) ! 1) 1 ext
         \<and> d = int (length (current_stream t')))
   \<and> switch_stream deep_fork_tree 3 1 True = Inr (deep_fork_tree\<lparr>current_stream := [0, 1, 0, 0]\<rparr>, 4)
   \<and> valid_path left_tree \<and> 3 \<le> int (length (current_stream left_tree))
   \<and> \<not> has_sibling left_tree 3 (- 1) \<and> has_sibling left_tree 2 (- 1)
   \<and> (\<exists>t' d ext. switch_stream left_tree 3 (- 1) False = Inr (t', d)
         \<and> current_stream t' = [0, 0] @ ext
         \<and> extremal_descent (children (hd (children (root left_tree))) ! 0) (- 1) ext)
   \<and> switch_stream left_tree 3 (- 1) False = Inr (left_tree\<lparr>current_stream := [0, 0, 1]\<rparr>, 3)"
proof -
  have a: "valid_path root_fork_tree" by code_simp
  have b: "2 \<le> int (length (current_stream root_fork_tree))" by code_simp
  have c: "\<forall>j \<in> set [3..2]. \<not> has_sibling root_fork_tree j 1" by code_simp
  have d: "\<not> has_sibling root_fork_tree 2 1" "has_sibling root_fork_tree 1 1" by code_simp+
  have p1: "switch_stream root_fork_tree 2 1 False = Inr (root_fork_tree, 2)"
    using switch_stream_examines_down_to_level_two [OF a b c, of False] d by simp
  have a': "valid_path deep_fork_tree" by code_simp
  have b': "3 \<le> int (length (current_stream deep_fork_tree))" by code_simp
  have c': "\<forall>j \<in> set [3..3]. \<not> has_sibling deep_fork_tree j 1" by code_simp
  have c0': "\<not> has_sibling deep_fork_tree 3 1" by code_simp
  have d': "has_sibling deep_fork_tree 2 1" by code_simp
  have e': "current_stream deep_fork_tree = [0, 0, 0]"
    "node_at_index deep_fork_tree 1 = Inr (hd (children (root deep_fork_tree)))" by code_simp+
  have p2: "\<exists>t' d ext. switch_stream deep_fork_tree 3 1 True = Inr (t', d)
         \<and> current_stream t' = [0, 1] @ ext
         \<and> extremal_descent (children (hd (children (root deep_fork_tree))) ! 1) 1 ext
         \<and> d = int (length (current_stream t'))"
    using switch_stream_examines_down_to_level_two [OF a' b' c', of True] d' e' by auto
  have q2: "switch_stream deep_fork_tree 3 1 True = Inr (deep_fork_tree\<lparr>current_stream := [0, 1, 0, 0]\<rparr>, 4)"
    by code_simp
  have a'': "valid_path left_tree" by code_simp
  have b'': "3 \<le> int (length (current_stream left_tree))" by code_simp
  have c'': "\<forall>j \<in> set [3..3]. \<not> has_sibling left_tree j (- 1)" by code_simp
  have c0'': "\<not> has_sibling left_tree 3 (- 1)" by code_simp
  have d'': "has_sibling left_tree 2 (- 1)" by code_simp
  have e'': "current_stream left_tree = [0, 1, 0]"
    "node_at_index left_tree 1 = Inr (hd (children (root left_tree)))" by code_simp+
  have p3: "\<exists>t' d ext. switch_stream left_tree 3 (- 1) False = Inr (t', d)
         \<and> current_stream t' = [0, 0] @ ext
         \<and> extremal_descent (children (hd (children (root left_tree))) ! 0) (- 1) ext"
    using switch_stream_examines_down_to_level_two [OF a'' b'' c'', of False] d'' e'' by auto
  have q3: "switch_stream left_tree 3 (- 1) False = Inr (left_tree\<lparr>current_stream := [0, 0, 1]\<rparr>, 3)"
    by code_simp
  show ?thesis
    using a b d p1 a' b' c0' d' p2 q2 a'' b'' c0'' d'' p3 q3 by simp
qed

text \<open>
  C3 as stated fails: in root - (A - B, C) with the path to B, no level deeper than 1 has
  a right sibling, the root has the child C right of A, and \<^verbatim>\<open>switch_stream\<close> leaves
  the path at \<open>[0, 0]\<close>, at depth 2 and at depth 1.
\<close>

theorem switch_stream_examines_down_to_level_two_counterexample:
  "valid_path root_fork_tree \<and> \<not> has_sibling root_fork_tree 2 1 \<and> has_sibling root_fork_tree 1 1
   \<and> current_stream root_fork_tree = [0, 0]
   \<and> switch_stream root_fork_tree 2 1 False = Inr (root_fork_tree, 2)
   \<and> switch_stream root_fork_tree 1 1 False = Inr (root_fork_tree, 1)"
  by code_simp

section \<open>The autoscroll timer\<close>

lemma switch_loop_total:
  assumes "valid_path t" and "index \<le> int (length (current_stream t))"
  shows "\<exists>t' i. switch_loop t original_index index increment leaf_explore = Inr (t', i)"
  using assms
proof (induction t original_index index increment leaf_explore rule: switch_loop.induct)
  case (1 t original_index index increment leaf_explore)
  show ?case
  proof (cases "index > 1")
    case False
    then show ?thesis by (subst switch_loop.simps) simp
  next
    case True
    obtain parent where parent: "node_at_index t (index - 1) = Inr parent"
      using valid_path_node_at_index [OF "1.prems"(1), of "index - 1"] "1.prems"(2) by auto
    have s: "py_index (current_stream t) (index - 1) = Inr (current_stream t ! nat (index - 1))"
      using True "1.prems"(2) by (intro py_index_in_range) auto
    show ?thesis
    proof (cases "0 \<le> current_stream t ! nat (index - 1) + increment
                      \<and> current_stream t ! nat (index - 1) + increment < int (length (children parent))")
      case in_range: True
      show ?thesis
        using True in_range
        by (subst switch_loop.simps) (simp add: parent s Let_def split: prod.splits)
    next
      case out: False
      have "\<exists>t' i. switch_loop t original_index (index - 1) increment leaf_explore = Inr (t', i)"
        using "1.IH" [OF True parent s refl] out "1.prems" by auto
      then show ?thesis
        using True out by (subst switch_loop.simps) (auto simp add: parent s Let_def)
    qed
  qed
qed

lemma set_reading_mode_succeeds:
  assumes "valid_path (tree e)" and "selected_index e \<le> int (length (current_stream (tree e)))"
  shows "\<exists>e'. set_reading_mode autoloop e = Inr e' \<and> reading_mode e'
              \<and> current_timer e' = initial_timer autoloop"
proof (cases "selected_index e + 1 > int (length (current_stream (tree e)))")
  case True
  obtain t' i where "switch_stream (tree e) (selected_index e) 1 True = Inr (t', i)"
    unfolding switch_stream_def using switch_loop_total [OF assms] by blast
  then show ?thesis
    using True by (simp add: set_reading_mode_def)
next
  case False
  then show ?thesis
    by (simp add: set_reading_mode_def)
qed

lemma timer_event_counts_down:
  "\<not> reading_mode e \<Longrightarrow> current_timer e \<noteq> 1 \<Longrightarrow>
   handle_keypress autoloop now e (Plain []) = Inr (e\<lparr>current_timer := current_timer e - 1\<rparr>)"
  by (simp add: handle_keypress_def next_line_def)

lemma timer_event_expires:
  "\<not> reading_mode e \<Longrightarrow> current_timer e = 1 \<Longrightarrow>
   handle_keypress autoloop now e (Plain []) = set_reading_mode autoloop (e\<lparr>current_timer := 0\<rparr>)"
  by (simp add: handle_keypress_def next_line_def)

lemma timer_events_before_expiry:
  "\<not> reading_mode e \<Longrightarrow> int (length nows) < current_timer e \<Longrightarrow>
   run autoloop e (map (Pair (Plain [])) nows)
   = Inr (e\<lparr>current_timer := current_timer e - int (length nows)\<rparr>)"
proof (induction nows arbitrary: e)
  case Nil
  then show ?case by simp
next
  case (Cons now nows)
  have "handle_keypress autoloop now e (Plain []) = Inr (e\<lparr>current_timer := current_timer e - 1\<rparr>)"
    using Cons.prems by (intro timer_event_counts_down) auto
  moreover have "run autoloop (e\<lparr>current_timer := current_timer e - 1\<rparr>) (map (Pair (Plain [])) nows)
     = Inr (e\<lparr>current_timer := current_timer e - 1 - int (length nows)\<rparr>)"
    using Cons.IH [of "e\<lparr>current_timer := current_timer e - 1\<rparr>"] Cons.prems by simp
  ultimately show ?case
    by (simp add: algebra_simps)
qed

lemma run_append:
  "run autoloop e (xs @ ys)
   = (case run autoloop e xs of Inl x \<Rightarrow> Inl x | Inr e1 \<Rightarrow> run autoloop e1 ys)"
  by (induction xs arbitrary: e) (auto split: sum.splits)

lemma timer_events_at_expiry:
  assumes "\<not> reading_mode e" and "int (length nows) = current_timer e" and "nows \<noteq> []"
  shows "run autoloop e (map (Pair (Plain [])) nows) = set_reading_mode autoloop (e\<lparr>current_timer := 0\<rparr>)"
proof -
  have split: "nows = butlast nows @ [last nows]"
    using assms(3) by simp
  have "int (length (butlast nows)) < current_timer e"
    using assms(2,3) by (cases nows) auto
  then have before: "run autoloop e (map (Pair (Plain [])) (butlast nows))
                 = Inr (e\<lparr>current_timer := current_timer e - int (length (butlast nows))\<rparr>)"
    using assms(1) by (rule timer_events_before_expiry [rotated])
  have one: "current_timer e - int (length (butlast nows)) = 1"
    using assms(2,3) by (cases nows) auto
  have "run autoloop e (map (Pair (Plain [])) (butlast nows @ [last nows]))
        = set_reading_mode autoloop (e\<lparr>current_timer := 0\<rparr>)"
    unfolding map_append run_append before
    using assms(1) one by (simp add: timer_event_expires split: sum.splits)
  with split show ?thesis by simp
qed

text \<open>
  From a writing-mode state with the timer at its initial value \<open>N\<close>, the first \<open>N - 1\<close>
  timer events of a run only count the timer down, and the \<open>N\<close>th is the call of
  \<^verbatim>\<open>set_reading_mode\<close> on the state with the timer at 0; that call returns, in reading
  mode, when the path is valid and the selected index lies within it.
\<close>

lemma timer_run_ends_in_set_reading_mode:
  assumes "\<not> reading_mode e" and "current_timer e = initial_timer autoloop"
    and "length nows = nat (initial_timer autoloop)"
  shows "(\<forall>k < length nows.
            run autoloop e (map (Pair (Plain [])) (take k nows))
            = Inr (e\<lparr>current_timer := initial_timer autoloop - int k\<rparr>))
         \<and> run autoloop e (map (Pair (Plain [])) nows)
            = set_reading_mode autoloop (e\<lparr>current_timer := 0\<rparr>)
         \<and> (valid_path (tree e) \<and> selected_index e \<le> int (length (current_stream (tree e)))
              \<longrightarrow> (\<exists>e'. run autoloop e (map (Pair (Plain [])) nows) = Inr e'
                         \<and> reading_mode e' \<and> current_timer e' = initial_timer autoloop))"
proof -
  have pos: "0 < initial_timer autoloop"
    by (simp add: initial_timer_def)
  have a: "run autoloop e (map (Pair (Plain [])) (take k nows))
            = Inr (e\<lparr>current_timer := initial_timer autoloop - int k\<rparr>)" if "k < length nows" for k
    using timer_events_before_expiry [OF assms(1), of "take k nows" autoloop] that assms(2,3)
    by simp
  have ne: "nows \<noteq> []"
    using assms(3) pos by auto
  have b: "run autoloop e (map (Pair (Plain [])) nows)
            = set_reading_mode autoloop (e\<lparr>current_timer := 0\<rparr>)"
    using assms pos by (intro timer_events_at_expiry ne) auto
  have c: "\<exists>e'. run autoloop e (map (Pair (Plain [])) nows) = Inr e'
                         \<and> reading_mode e' \<and> current_timer e' = initial_timer autoloop"
    if "valid_path (tree e) \<and> selected_index e \<le> int (length (current_stream (tree e)))"
    unfolding b using that by (intro set_reading_mode_succeeds) simp_all
  show ?thesis
    using a b c by blast
qed

text \<open>
  C7 at a failing input. A fresh editor that is left idle for 20 timer events enters
  reading mode on the empty path; Tab then moves the selected index to 2 and Enter goes
  back to writing mode, with the timer at its initial value 20. From this state the first
  19 timer events count the timer down to 1, and the 20th raises \<^verbatim>\<open>IndexError\<close> instead of
  completing the switch to reading mode: \<^verbatim>\<open>set_reading_mode\<close> calls
  \<^verbatim>\<open>switch_stream(2, 1, True)\<close>, which indexes the empty stream.
\<close>

theorem timer_run_raises_in_reachable_state:
  "run True (Editor_init True 0)
     (replicate 20 (Plain [], 1) @ [(Sequence KEY_TAB, 2), (Sequence KEY_ENTER, 3)])
     = Inr stuck_state
   \<and> \<not> reading_mode stuck_state
   \<and> current_timer stuck_state = initial_timer True
   \<and> run True stuck_state (replicate 19 (Plain [], 4)) = Inr (stuck_state\<lparr>current_timer := 1\<rparr>)
   \<and> run True stuck_state (replicate 20 (Plain [], 4)) = Inl IndexError"
  by code_simp


section \<open>The cursor within the text\<close>

lemma set_reading_mode_clears:
  "set_reading_mode autoloop e = Inr e' \<Longrightarrow> current_text e' = [] \<and> cursor_position e' = 0"
  by (auto simp: set_reading_mode_def Let_def split: if_splits sum.splits prod.splits)

lemma submit_para_clears:
  "submit_para autoloop now e = Inr e' \<Longrightarrow> current_text e' = [] \<and> cursor_position e' = 0"
  by (auto simp: submit_para_def split: sum.splits)

lemma prev_line_keeps_text:
  "prev_line e = Inr e' \<Longrightarrow>
   current_text e' = current_text e \<and> cursor_position e' = cursor_position e"
  by (auto simp: prev_line_def Let_def split: if_splits sum.splits)

lemma repeat_prev_line_keeps_text:
  "repeat_prev_line n e = Inr e' \<Longrightarrow>
   current_text e' = current_text e \<and> cursor_position e' = cursor_position e"
proof (induction n arbitrary: e)
  case 0
  then show ?case by simp
next
  case (Suc n)
  then show ?case
    by (auto split: sum.splits dest!: prev_line_keeps_text)
qed

lemma next_line_keeps_bounds:
  "next_line autoloop e = Inr e' \<Longrightarrow> cursor_in_bounds e \<Longrightarrow> cursor_in_bounds e'"
  by (auto simp: next_line_def next_para_def cursor_in_bounds_def Let_def
      split: if_splits sum.splits dest!: set_reading_mode_clears)

lemma switch_selected_keeps_text:
  "switch_selected e increment = Inr e' \<Longrightarrow>
   current_text e' = current_text e \<and> cursor_position e' = cursor_position e"
  by (auto simp: switch_selected_def split: sum.splits prod.splits)

lemma reading_key_keeps_text:
  "reading_key e k = Inr e' \<Longrightarrow>
   current_text e' = current_text e \<and> cursor_position e' = cursor_position e"
  by (auto simp: reading_key_def next_para_def prev_para_def Let_def
      split: if_splits sum.splits dest!: switch_selected_keeps_text)

lemma length_py_take_drop:
  "0 \<le> c \<Longrightarrow> c \<le> int (length xs) \<Longrightarrow> length (py_take xs c @ py_drop xs c) = length xs"
  by (simp add: py_take_def py_drop_def)

lemma insert_keeps_bounds:
  assumes "cursor_in_bounds e" and "k \<noteq> []"
  shows "cursor_in_bounds
           (e\<lparr>current_text := py_take (current_text e) (cursor_position e) @ k
                               @ py_drop (current_text e) (cursor_position e),
              cursor_position := cursor_position e + 1\<rparr>)"
proof -
  have "1 \<le> length k"
    using assms(2) by (cases k) auto
  moreover have "nat (cursor_position e) \<le> length (current_text e)" and "0 \<le> cursor_position e"
    using assms(1) by (auto simp: cursor_in_bounds_def)
  ultimately show ?thesis
    by (simp add: cursor_in_bounds_def py_take_def py_drop_def min_absorb2)
qed

lemma backspace_keeps_bounds:
  assumes "cursor_in_bounds e" and "current_text e \<noteq> []"
  shows "cursor_in_bounds
           (e\<lparr>current_text := py_take (current_text e) (cursor_position e - 1)
                               @ py_drop (current_text e) (cursor_position e),
              cursor_position := max 0 (cursor_position e - 1)\<rparr>)"
  using assms by (auto simp: cursor_in_bounds_def py_take_def py_drop_def)

lemma sequence_key_keeps_bounds:
  assumes "cursor_in_bounds e" and "handle_keypress autoloop now e (Sequence name) = Inr e'"
  shows "cursor_in_bounds e'"
proof (cases name)
  case KEY_ENTER
  with assms show ?thesis
    by (auto simp: handle_keypress_def cursor_in_bounds_def split: if_splits
        dest!: submit_para_clears set_reading_mode_clears)
next
  case KEY_TAB
  with assms show ?thesis
    by (auto simp: handle_keypress_def cursor_in_bounds_def next_para_def Let_def split: if_splits
        dest!: set_reading_mode_clears)
next
  case KEY_BACKSPACE
  show ?thesis
  proof (cases "current_text e \<noteq> [] \<and> \<not> reading_mode e")
    case True
    then show ?thesis
      using assms(2) KEY_BACKSPACE backspace_keeps_bounds [OF assms(1)]
      by (auto simp: handle_keypress_def)
  next
    case False
    then show ?thesis
      using assms KEY_BACKSPACE by (auto simp: handle_keypress_def)
  qed
next
  case KEY_RIGHT
  with assms show ?thesis
    by (auto simp: handle_keypress_def cursor_in_bounds_def split: if_splits
        dest!: switch_selected_keeps_text)
next
  case KEY_LEFT
  with assms show ?thesis
    by (auto simp: handle_keypress_def cursor_in_bounds_def split: if_splits
        dest!: switch_selected_keeps_text)
next
  case KEY_DOWN
  with assms show ?thesis
    by (auto simp: handle_keypress_def dest: next_line_keeps_bounds)
next
  case KEY_UP
  with assms show ?thesis
    by (auto simp: handle_keypress_def cursor_in_bounds_def dest!: prev_line_keeps_text)
next
  case KEY_ESCAPE
  show ?thesis
  proof (cases "reading_mode e")
    case True
    then show ?thesis
      using assms KEY_ESCAPE by (simp add: handle_keypress_def)
  next
    case False
    then obtain e1 where e1: "(if current_text e \<noteq> [] then submit_para autoloop now e else Inr e) = Inr e1"
      and r: "repeat_prev_line (1 + length (text_wrap (current_text e1) (column_width e1))) e1 = Inr e'"
      using assms(2) KEY_ESCAPE by (auto simp: handle_keypress_def split: sum.splits)
    from e1 have "cursor_in_bounds e1"
      using assms(1) by (auto simp: cursor_in_bounds_def split: if_splits dest!: submit_para_clears)
    then show ?thesis
      using repeat_prev_line_keeps_text [OF r] by (simp add: cursor_in_bounds_def)
  qed
next
  case KEY_OTHER
  with assms show ?thesis
    by (simp add: handle_keypress_def)
qed

lemma plain_key_keeps_bounds:
  assumes "cursor_in_bounds e" and "handle_keypress autoloop now e (Plain k) = Inr e'"
  shows "cursor_in_bounds e'"
proof (cases "k = []")
  case True
  with assms show ?thesis
    by (auto simp: handle_keypress_def dest: next_line_keeps_bounds)
next
  case False
  obtain e1 where e1: "(if reading_mode e then reading_key e k else Inr e) = Inr e1"
    using assms(2) False by (auto simp: handle_keypress_def split: sum.splits)
  then have same: "current_text e1 = current_text e \<and> cursor_position e1 = cursor_position e"
    by (auto split: if_splits dest!: reading_key_keeps_text)
  then have b1: "cursor_in_bounds e1"
    using assms(1) by (simp add: cursor_in_bounds_def)
  show ?thesis
  proof (cases "reading_mode e1")
    case True
    then have "e' = e1"
      using assms(2) False e1 by (simp add: handle_keypress_def)
    with b1 show ?thesis by simp
  next
    case writing: False
    then have "e' = e1\<lparr>current_text := py_take (current_text e1) (cursor_position e1) @ k
                               @ py_drop (current_text e1) (cursor_position e1),
              cursor_position := cursor_position e1 + 1\<rparr>"
      using assms(2) False e1 by (simp add: handle_keypress_def)
    then show ?thesis
      using insert_keeps_bounds [OF b1 False] by simp
  qed
qed

lemma handle_keypress_keeps_bounds:
  "cursor_in_bounds e \<Longrightarrow> handle_keypress autoloop now e key = Inr e' \<Longrightarrow> cursor_in_bounds e'"
  by (cases key) (auto dest: sequence_key_keeps_bounds plain_key_keeps_bounds)

lemma run_keeps_bounds:
  "cursor_in_bounds e \<Longrightarrow> run autoloop e events = Inr e' \<Longrightarrow> cursor_in_bounds e'"
proof (induction events arbitrary: e)
  case Nil
  then show ?case by simp
next
  case (Cons ev events)
  obtain key now where ev: "ev = (key, now)"
    by (cases ev)
  from Cons.prems(2) ev obtain e1 where h: "handle_keypress autoloop now e key = Inr e1"
    and r: "run autoloop e1 events = Inr e'"
    by (auto split: sum.splits)
  from handle_keypress_keeps_bounds [OF Cons.prems(1) h] r show ?case
    by (rule Cons.IH)
qed

lemma insert_char_advances:
  assumes "cursor_in_bounds e" and "\<not> reading_mode e"
  shows "\<exists>e'. handle_keypress autoloop now e (Plain [c]) = Inr e'
           \<and> cursor_position e' = cursor_position e + 1
           \<and> length (current_text e') = length (current_text e) + 1"
  using assms by (simp add: handle_keypress_def cursor_in_bounds_def py_take_def py_drop_def)

text \<open>
  C10. The cursor lies within the text, \<open>0 \<le> cursor_position \<le> length of current_text\<close>,
  in the initial state; every event that is handled without an exception keeps it so,
  from any state where it holds; hence it holds in every state reached from the initial
  state by key and timer events. Typing one character in writing mode advances the cursor
  by one and makes the text one longer.
\<close>

theorem cursor_stays_within_text:
  "cursor_in_bounds (Editor_init autoloop now0)
   \<and> (\<forall>e now key e'. cursor_in_bounds e \<and> handle_keypress autoloop now e key = Inr e'
         \<longrightarrow> cursor_in_bounds e')
   \<and> (\<forall>events e. run autoloop (Editor_init autoloop now0) events = Inr e
         \<longrightarrow> 0 \<le> cursor_position e \<and> cursor_position e \<le> int (length (current_text e)))
   \<and> (\<forall>e now c. cursor_in_bounds e \<and> \<not> reading_mode e
         \<longrightarrow> (\<exists>e'. handle_keypress autoloop now e (Plain [c]) = Inr e'
                  \<and> cursor_position e' = cursor_position e + 1
                  \<and> length (current_text e') = length (current_text e) + 1))"
proof -
  have init: "cursor_in_bounds (Editor_init autoloop now0)"
    by (simp add: cursor_in_bounds_def Editor_init_def)
  have "cursor_in_bounds e" if "run autoloop (Editor_init autoloop now0) events = Inr e" for events e
    using init that by (rule run_keeps_bounds)
  then have reach: "\<forall>events e. run autoloop (Editor_init autoloop now0) events = Inr e
         \<longrightarrow> 0 \<le> cursor_position e \<and> cursor_position e \<le> int (length (current_text e))"
    by (simp add: cursor_in_bounds_def)
  show ?thesis
    using init reach handle_keypress_keeps_bounds insert_char_advances by blast
qed

theorem cursor_stays_within_text_witness:
  "run True (Editor_init True 0) cursor_events = Inr cursor_final
   \<and> 0 \<le> cursor_position cursor_final
   \<and> cursor_position cursor_final \<le> int (length (current_text cursor_final))"
proof -
  have "run True (Editor_init True 0) cursor_events = Inr cursor_final"
    by code_simp
  then show ?thesis
    using cursor_stays_within_text [of True 0] by blast
qed

end
